theory Spec2Isabelle
  imports Complex_Main
begin

section \<open>Data model\<close>

text \<open>
  A frame is one feature vector, an observation sequence is a list of frames. The
  trainer and the scorer work on the flattened form: the frames of several sequences
  concatenated, with the list of the sequences' lengths. A Python dict is an association
  list in insertion order, its keys distinct.
\<close>

type_synonym frame = "real list"
type_synonym seq = "frame list"
type_synonym xlengths = "frame list \<times> nat list"
type_synonym 'v dict = "(string \<times> 'v) list"

datatype error =
  ValueError | AttributeError | ZeroDivisionError | IndexError | KeyError | OverflowError

definition dict_get :: "'v dict \<Rightarrow> string \<Rightarrow> error + 'v" where
  "dict_get d k = (case map_of d k of None \<Rightarrow> Inl KeyError | Some v \<Rightarrow> Inr v)"

definition dict_keys :: "'v dict \<Rightarrow> string list" where
  "dict_keys d = map fst d"

subsection \<open>Python floats\<close>

text \<open>
  A double is a finite value, one of the two infinities or NaN. The comparisons are
  those of IEEE 754: exact on the values, and false when an operand is NaN.
\<close>

datatype pyfloat = Fin real | PosInf | NegInf | NaN

fun flt :: "pyfloat \<Rightarrow> pyfloat \<Rightarrow> bool" where
  "flt (Fin a) (Fin b) = (a < b)"
| "flt (Fin a) PosInf = True"
| "flt NegInf (Fin b) = True"
| "flt NegInf PosInf = True"
| "flt _ _ = False"

definition fgt :: "pyfloat \<Rightarrow> pyfloat \<Rightarrow> bool" where
  "fgt a b = flt b a"

text \<open>
  The exact result of an operation. It is finite only for finite operands; with an
  infinite operand or NaN it is the value IEEE 754 prescribes.
\<close>

fun fmul :: "pyfloat \<Rightarrow> pyfloat \<Rightarrow> pyfloat" where
  "fmul (Fin a) (Fin b) = Fin (a * b)"
| "fmul (Fin a) PosInf = (if a = 0 then NaN else if 0 < a then PosInf else NegInf)"
| "fmul (Fin a) NegInf = (if a = 0 then NaN else if 0 < a then NegInf else PosInf)"
| "fmul PosInf (Fin b) = (if b = 0 then NaN else if 0 < b then PosInf else NegInf)"
| "fmul NegInf (Fin b) = (if b = 0 then NaN else if 0 < b then NegInf else PosInf)"
| "fmul PosInf PosInf = PosInf"
| "fmul NegInf NegInf = PosInf"
| "fmul PosInf NegInf = NegInf"
| "fmul NegInf PosInf = NegInf"
| "fmul _ _ = NaN"

fun fadd :: "pyfloat \<Rightarrow> pyfloat \<Rightarrow> pyfloat" where
  "fadd (Fin a) (Fin b) = Fin (a + b)"
| "fadd (Fin a) PosInf = PosInf"
| "fadd (Fin a) NegInf = NegInf"
| "fadd PosInf (Fin b) = PosInf"
| "fadd NegInf (Fin b) = NegInf"
| "fadd PosInf PosInf = PosInf"
| "fadd NegInf NegInf = NegInf"
| "fadd _ _ = NaN"

fun fsub :: "pyfloat \<Rightarrow> pyfloat \<Rightarrow> pyfloat" where
  "fsub (Fin a) (Fin b) = Fin (a - b)"
| "fsub (Fin a) PosInf = NegInf"
| "fsub (Fin a) NegInf = PosInf"
| "fsub PosInf (Fin b) = PosInf"
| "fsub NegInf (Fin b) = NegInf"
| "fsub PosInf NegInf = PosInf"
| "fsub NegInf PosInf = NegInf"
| "fsub _ _ = NaN"

text \<open>Division by a count, a positive integer.\<close>

fun fdiv_count :: "pyfloat \<Rightarrow> nat \<Rightarrow> pyfloat" where
  "fdiv_count (Fin a) c = Fin (a / real c)"
| "fdiv_count v c = v"

text \<open>
  The result of an operation in double arithmetic is its exact result, rounded when it
  is finite. The rounding \<open>r\<close> takes a real to the double the operation returns: a
  finite double, or an infinity on overflow.
\<close>

definition fl_round :: "(real \<Rightarrow> pyfloat) \<Rightarrow> pyfloat \<Rightarrow> pyfloat" where
  "fl_round r v = (case v of Fin x \<Rightarrow> r x | _ \<Rightarrow> v)"

subsection \<open>External collaborators\<close>

text \<open>
  hmmlearn's trainer and scorer, scikit-learn's fold splitter and the double arithmetic
  of Python and numpy are parameters: a fit of
  \<open>GaussianHMM(n_components, random_state).fit(X, lengths)\<close> returns a model or
  raises, \<open>model.score(X, lengths)\<close> returns a log-likelihood, any double, or raises,
  and \<open>KFold().split(sequences)\<close> yields the list of (train, test) index lists or
  raises when its first fold is asked for. \<open>rnd\<close> is the rounding of the double
  operations, \<open>np_log\<close> is \<open>np.log\<close> on a length, and \<open>float_of_int\<close> is
  the conversion of an int operand of a double operation, which raises for an int out
  of the doubles' range. Nothing is assumed of them: what is proved holds for every
  rounding, that of IEEE 754 among them.
\<close>

record 'm library =
  GaussianHMM_fit :: "int \<Rightarrow> int \<Rightarrow> frame list \<Rightarrow> nat list \<Rightarrow> error + 'm"
  GaussianHMM_score :: "'m \<Rightarrow> frame list \<Rightarrow> nat list \<Rightarrow> error + pyfloat"
  KFold_split :: "seq list \<Rightarrow> error + (nat list \<times> nat list) list"
  rnd :: "real \<Rightarrow> pyfloat"
  np_log :: "nat \<Rightarrow> pyfloat"
  float_of_int :: "int \<Rightarrow> error + pyfloat"

definition fl_mul :: "'m library \<Rightarrow> pyfloat \<Rightarrow> pyfloat \<Rightarrow> pyfloat" where
  "fl_mul lib a b = fl_round (rnd lib) (fmul a b)"

definition fl_add :: "'m library \<Rightarrow> pyfloat \<Rightarrow> pyfloat \<Rightarrow> pyfloat" where
  "fl_add lib a b = fl_round (rnd lib) (fadd a b)"

definition fl_sub :: "'m library \<Rightarrow> pyfloat \<Rightarrow> pyfloat \<Rightarrow> pyfloat" where
  "fl_sub lib a b = fl_round (rnd lib) (fsub a b)"

definition fl_div_count :: "'m library \<Rightarrow> pyfloat \<Rightarrow> nat \<Rightarrow> pyfloat" where
  "fl_div_count lib a c = fl_round (rnd lib) (fdiv_count a c)"

text \<open>\<open>a / b\<close> on two ints: the quotient rounded, or ZeroDivisionError.\<close>

definition py_truediv :: "'m library \<Rightarrow> int \<Rightarrow> int \<Rightarrow> error + pyfloat" where
  "py_truediv lib a b =
     (if b = 0 then Inl ZeroDivisionError
      else Inr (rnd lib (real_of_int a / real_of_int b)))"

section \<open>Model selectors\<close>

record selector =
  words :: "seq list dict"
  hwords :: "xlengths dict"
  sequences :: "seq list"
  X_mat :: "frame list"
  lengths :: "nat list"
  this_word :: string
  n_constant :: int
  min_n_components :: int
  max_n_components :: int
  random_state :: int
  verbose :: bool

text \<open>\<open>ModelSelector.__init__\<close>: the two lookups of the target word raise KeyError.\<close>

definition ModelSelector_init ::
  "seq list dict \<Rightarrow> xlengths dict \<Rightarrow> string \<Rightarrow> int \<Rightarrow> int \<Rightarrow> int \<Rightarrow> int \<Rightarrow> bool
     \<Rightarrow> error + selector" where
  "ModelSelector_init all_word_sequences all_word_Xlengths w nc mn mx rs vb =
     (case dict_get all_word_sequences w of
        Inl e \<Rightarrow> Inl e
      | Inr sq \<Rightarrow>
          (case dict_get all_word_Xlengths w of
             Inl e \<Rightarrow> Inl e
           | Inr (x, l) \<Rightarrow>
               Inr \<lparr>words = all_word_sequences, hwords = all_word_Xlengths,
                    sequences = sq, X_mat = x, lengths = l, this_word = w,
                    n_constant = nc, min_n_components = mn, max_n_components = mx,
                    random_state = rs, verbose = vb\<rparr>))"

text \<open>\<open>base_model\<close>: every failure of the fit is absorbed and gives None.\<close>

definition base_model :: "'m library \<Rightarrow> selector \<Rightarrow> int \<Rightarrow> 'm option" where
  "base_model lib self num_states =
     (case GaussianHMM_fit lib num_states (random_state self) (X_mat self) (lengths self) of
        Inr hmm_model \<Rightarrow> Some hmm_model
      | Inl _ \<Rightarrow> None)"

text \<open>
  \<open>m.score(x, l)\<close> on what \<open>base_model\<close> returned: on None the attribute lookup
  raises AttributeError.
\<close>

definition model_score :: "'m library \<Rightarrow> 'm option \<Rightarrow> frame list \<Rightarrow> nat list \<Rightarrow> error + pyfloat" where
  "model_score lib m x l =
     (case m of None \<Rightarrow> Inl AttributeError | Some h \<Rightarrow> GaussianHMM_score lib h x l)"

subsection \<open>SelectorConstant\<close>

definition SelectorConstant_select :: "'m library \<Rightarrow> selector \<Rightarrow> 'm option" where
  "SelectorConstant_select lib self = base_model lib self (n_constant self)"

subsection \<open>SelectorBIC\<close>

text \<open>
  The body of the \<open>try\<close> up to the comparison: the fitted model and its BIC, or the
  error that ends the iteration. \<open>p\<close> is an int; \<open>-2 * curr_score\<close>,
  \<open>p * np.log(...)\<close> and their sum are double operations.
\<close>

definition bic_try :: "'m library \<Rightarrow> selector \<Rightarrow> int \<Rightarrow> error + ('m option \<times> pyfloat)" where
  "bic_try lib self number_of_states =
     (let current_model = base_model lib self number_of_states in
      case model_score lib current_model (X_mat self) (lengths self) of
        Inl e \<Rightarrow> Inl e
      | Inr curr_score \<Rightarrow>
          (let p = number_of_states ^ 2
                     + 2 * number_of_states * int (length (lengths self)) - 1
           in case float_of_int lib p of
                Inl e \<Rightarrow> Inl e
              | Inr pf \<Rightarrow>
                  (let bic = fl_add lib (fl_mul lib (Fin (- 2)) curr_score)
                                        (fl_mul lib pf (np_log lib (length (lengths self))))
                   in Inr (current_model, bic))))"

text \<open>One iteration; the state is \<open>(best_model, best_score)\<close>.\<close>

definition bic_step ::
  "'m library \<Rightarrow> selector \<Rightarrow> 'm option \<times> pyfloat \<Rightarrow> int \<Rightarrow> 'm option \<times> pyfloat" where
  "bic_step lib self st number_of_states =
     (case bic_try lib self number_of_states of
        Inl _ \<Rightarrow> st
      | Inr (current_model, bic) \<Rightarrow>
          if flt bic (snd st) then (current_model, bic) else st)"

definition SelectorBIC_select :: "'m library \<Rightarrow> selector \<Rightarrow> 'm option" where
  "SelectorBIC_select lib self =
     fst (foldl (bic_step lib self) (None, PosInf)
            [min_n_components self .. max_n_components self])"

subsection \<open>SelectorDIC\<close>

text \<open>
  The inner loop over the keys of \<open>self.hwords\<close>: the log-likelihoods of the other
  words' data under the candidate model are added up, in double arithmetic and in the
  order of the dict; the first error ends it. The sum starts as the int 0, which the
  first double operation that meets it converts to the double 0.0.
\<close>

fun dic_score_sum ::
  "'m library \<Rightarrow> selector \<Rightarrow> 'm option \<Rightarrow> string list \<Rightarrow> pyfloat \<Rightarrow> error + pyfloat" where
  "dic_score_sum lib self current_model [] score_sum = Inr score_sum"
| "dic_score_sum lib self current_model (word # ws) score_sum =
     (if word \<noteq> this_word self then
        (case dict_get (hwords self) word of
           Inl e \<Rightarrow> Inl e
         | Inr (x_w, l_w) \<Rightarrow>
             (case model_score lib current_model x_w l_w of
                Inl e \<Rightarrow> Inl e
              | Inr s \<Rightarrow>
                  dic_score_sum lib self current_model ws (fl_add lib score_sum s)))
      else dic_score_sum lib self current_model ws score_sum)"

definition dic_try :: "'m library \<Rightarrow> selector \<Rightarrow> int \<Rightarrow> error + ('m option \<times> pyfloat)" where
  "dic_try lib self number_of_states =
     (let current_model = base_model lib self number_of_states in
      case model_score lib current_model (X_mat self) (lengths self) of
        Inl e \<Rightarrow> Inl e
      | Inr curr_score \<Rightarrow>
          (case dic_score_sum lib self current_model (dict_keys (hwords self)) (Fin 0) of
             Inl e \<Rightarrow> Inl e
           | Inr score_sum \<Rightarrow>
               (case py_truediv lib 1 (int (length (hwords self)) - 1) of
                  Inl e \<Rightarrow> Inl e
                | Inr q \<Rightarrow>
                    Inr (current_model, fl_sub lib curr_score (fl_mul lib q score_sum)))))"

definition dic_step ::
  "'m library \<Rightarrow> selector \<Rightarrow> 'm option \<times> pyfloat \<Rightarrow> int \<Rightarrow> 'm option \<times> pyfloat" where
  "dic_step lib self st number_of_states =
     (case dic_try lib self number_of_states of
        Inl _ \<Rightarrow> st
      | Inr (current_model, dic) \<Rightarrow>
          if fgt dic (snd st) then (current_model, dic) else st)"

definition SelectorDIC_select :: "'m library \<Rightarrow> selector \<Rightarrow> 'm option" where
  "SelectorDIC_select lib self =
     fst (foldl (dic_step lib self) (None, NegInf)
            [min_n_components self .. max_n_components self])"

subsection \<open>SelectorCV\<close>

text \<open>
  Modelled from the spec: \<open>combine_sequences\<close> of \<open>asl_utils\<close>, which is not among
  the sources. It builds the flattened (matrix, lengths) view of the sequences at the
  given indices; an index out of range raises IndexError.
\<close>

definition combine_sequences :: "nat list \<Rightarrow> seq list \<Rightarrow> error + xlengths" where
  "combine_sequences split_index_list sqs =
     (if list_all (\<lambda>idx. idx < length sqs) split_index_list
      then Inr (concat (map (\<lambda>idx. sqs ! idx) split_index_list),
                map (\<lambda>idx. length (sqs ! idx)) split_index_list)
      else Inl IndexError)"

text \<open>
  \<open>current_score\<close> is the int 0 until the first fold is scored, and a double from
  then on. \<open>0 / count\<close> on the ints is 0.0.
\<close>

datatype pynum = PyZero | PyFloat pyfloat

fun num_add :: "'m library \<Rightarrow> pynum \<Rightarrow> pyfloat \<Rightarrow> pyfloat" where
  "num_add lib PyZero s = fl_add lib (Fin 0) s"
| "num_add lib (PyFloat a) s = fl_add lib a s"

fun num_div_count :: "'m library \<Rightarrow> pynum \<Rightarrow> nat \<Rightarrow> pyfloat" where
  "num_div_count lib PyZero c = Fin 0"
| "num_div_count lib (PyFloat a) c = fl_div_count lib a c"

text \<open>
  The loop over the folds, inside the \<open>try\<close>. An error leaves the loop with the sum
  and the count as they were before the fold that raised.
\<close>

fun cv_folds ::
  "'m library \<Rightarrow> selector \<Rightarrow> 'm option \<Rightarrow> (nat list \<times> nat list) list \<Rightarrow> pynum \<times> nat
     \<Rightarrow> error option \<times> pynum \<times> nat" where
  "cv_folds lib self current_model [] (current_score, count) =
     (None, current_score, count)"
| "cv_folds lib self current_model ((train, test) # folds) (current_score, count) =
     (case combine_sequences train (sequences self) of
        Inl e \<Rightarrow> (Some e, current_score, count)
      | Inr (train_x, train_lengths) \<Rightarrow>
          (case combine_sequences test (sequences self) of
             Inl e \<Rightarrow> (Some e, current_score, count)
           | Inr (test_x, test_lengths) \<Rightarrow>
               (case model_score lib current_model test_x test_lengths of
                  Inl e \<Rightarrow> (Some e, current_score, count)
                | Inr s \<Rightarrow>
                    cv_folds lib self current_model folds
                      (PyFloat (num_add lib current_score s), count + 1))))"

text \<open>
  The \<open>try\<close> of one iteration. Its first statements cannot raise: \<open>base_model\<close>
  absorbs the failure of the fit, and \<open>split\<close> is a generator, which runs (and raises)
  only when the loop asks for the first fold, after the sum and the count are set to 0.
  The result is the error caught, if any, and \<open>current_model\<close>, \<open>current_score\<close>
  and \<open>count\<close> as the \<open>try\<close> leaves them.
\<close>

definition cv_try ::
  "'m library \<Rightarrow> selector \<Rightarrow> int \<Rightarrow> error option \<times> 'm option \<times> pynum \<times> nat" where
  "cv_try lib self number_of_states =
     (let current_model = base_model lib self number_of_states in
      case KFold_split lib (sequences self) of
        Inl e \<Rightarrow> (Some e, current_model, PyZero, 0)
      | Inr folds \<Rightarrow>
          (case cv_folds lib self current_model folds (PyZero, 0) of
             (err, current_score, count) \<Rightarrow> (err, current_model, current_score, count)))"

text \<open>
  One iteration: the \<open>try\<close>, then the statements after it, which run whether or
  not the \<open>try\<close> raised: the count floored to 1, the average, and the comparison,
  with \<open>current_model\<close> as \<open>base_model\<close> returned it.
\<close>

definition cv_step ::
  "'m library \<Rightarrow> selector \<Rightarrow> 'm option \<times> pyfloat \<Rightarrow> int \<Rightarrow> 'm option \<times> pyfloat" where
  "cv_step lib self st number_of_states =
     (case cv_try lib self number_of_states of
        (err, current_model, current_score, count) \<Rightarrow>
          (let count = (if count = 0 then 1 else count);
               average_score = num_div_count lib current_score count
           in if fgt average_score (snd st)
              then (current_model, average_score) else st))"

definition SelectorCV_select :: "'m library \<Rightarrow> selector \<Rightarrow> 'm option" where
  "SelectorCV_select lib self =
     fst (foldl (cv_step lib self) (None, NegInf)
            [min_n_components self .. max_n_components self])"

subsection \<open>The fold splitter of scikit-learn\<close>

text \<open>
  \<open>KFold(n_splits).split(X)\<close> without shuffling, as scikit-learn documents it.
  The constructor refuses fewer than two splits; \<open>KFold()\<close> takes the release's
  default number of splits (3, and 5 since release 0.22), so that in \<open>select\<close> the
  constructor does not raise. The split raises ValueError when there are fewer samples
  than splits; otherwise the indices \<open>0..n-1\<close> are cut into \<open>n_splits\<close>
  consecutive test folds, the first \<open>n mod n_splits\<close> of them one longer than the
  others, each paired with the remaining indices as its training part.
\<close>

definition fold_sizes :: "nat \<Rightarrow> nat \<Rightarrow> nat list" where
  "fold_sizes n_splits n_samples =
     map (\<lambda>i. n_samples div n_splits + (if i < n_samples mod n_splits then 1 else 0))
       [0..<n_splits]"

fun kfold_folds :: "nat \<Rightarrow> nat list \<Rightarrow> nat \<Rightarrow> (nat list \<times> nat list) list" where
  "kfold_folds n_samples [] current = []"
| "kfold_folds n_samples (fold_size # rest) current =
     ([0..<current] @ [current + fold_size..<n_samples], [current..<current + fold_size])
       # kfold_folds n_samples rest (current + fold_size)"

definition sklearn_KFold_split :: "nat \<Rightarrow> seq list \<Rightarrow> error + (nat list \<times> nat list) list" where
  "sklearn_KFold_split n_splits sqs =
     (if n_splits < 2 then Inl ValueError
      else if length sqs < n_splits then Inl ValueError
      else Inr (kfold_folds (length sqs) (fold_sizes n_splits (length sqs)) 0))"

section \<open>Recognizer\<close>

definition dict_setdefault ::
  "(string \<rightharpoonup> pyfloat) \<Rightarrow> string \<Rightarrow> pyfloat \<Rightarrow> (string \<rightharpoonup> pyfloat)" where
  "dict_setdefault d k v = (case d k of None \<Rightarrow> d(k \<mapsto> v) | Some _ \<Rightarrow> d)"

text \<open>
  One pass of the inner loop, over one \<open>(w, m)\<close> of \<open>models.items()\<close>; the state
  is \<open>(all_scores, best_score, best_word)\<close>. A model may be None, the absence a
  selector returned.
\<close>

definition recognize_word ::
  "'m library \<Rightarrow> frame list \<Rightarrow> nat list \<Rightarrow> (string \<rightharpoonup> pyfloat) \<times> pyfloat \<times> string
     \<Rightarrow> string \<times> 'm option \<Rightarrow> (string \<rightharpoonup> pyfloat) \<times> pyfloat \<times> string" where
  "recognize_word lib x x_lengths st wm =
     (case st of (all_scores, best_score, best_word) \<Rightarrow>
      case wm of (w, m) \<Rightarrow>
        (case model_score lib m x x_lengths of
           Inl _ \<Rightarrow> st
         | Inr current_score \<Rightarrow>
             if fgt current_score best_score
             then (dict_setdefault all_scores w current_score, current_score, w)
             else (dict_setdefault all_scores w current_score, best_score, best_word)))"

definition recognize_item ::
  "'m library \<Rightarrow> 'm option dict \<Rightarrow> frame list \<Rightarrow> nat list
     \<Rightarrow> (string \<rightharpoonup> pyfloat) \<times> pyfloat \<times> string" where
  "recognize_item lib models x x_lengths =
     foldl (recognize_word lib x x_lengths) (Map.empty, NegInf, []) models"

text \<open>
  The outer loop over the items of \<open>test_set.get_all_Xlengths()\<close>, a dict from the
  item's index to its \<open>(X, lengths)\<close>; the state is \<open>(probabilities, guesses)\<close>.
\<close>

definition recognize_step ::
  "'m library \<Rightarrow> 'm option dict \<Rightarrow> (string \<rightharpoonup> pyfloat) list \<times> string list
     \<Rightarrow> nat \<times> xlengths \<Rightarrow> (string \<rightharpoonup> pyfloat) list \<times> string list" where
  "recognize_step lib models acc item =
     (case acc of (probabilities, guesses) \<Rightarrow>
      case item of (i, x, x_lengths) \<Rightarrow>
        (case recognize_item lib models x x_lengths of
           (all_scores, best_score, best_word) \<Rightarrow>
             (probabilities @ [all_scores], guesses @ [best_word])))"

definition recognize ::
  "'m library \<Rightarrow> 'm option dict \<Rightarrow> (nat \<times> xlengths) list
     \<Rightarrow> (string \<rightharpoonup> pyfloat) list \<times> string list" where
  "recognize lib models test_set = foldl (recognize_step lib models) ([], []) test_set"

section \<open>Concrete instances\<close>

text \<open>
  The arithmetic of the instances: a result within the doubles' range is kept as it is,
  a result at or beyond the overflow threshold of rounding to nearest becomes an
  infinity. It is the IEEE 754 result wherever the exact result is a double, as is every
  value computed on the instances below (small integers, and \<open>2 ^ 1024\<close>, which
  overflows).
\<close>

definition overflow_threshold :: real where
  "overflow_threshold = 2 ^ 1024 - 2 ^ 970"

definition clip_round :: "real \<Rightarrow> pyfloat" where
  "clip_round x =
     (if overflow_threshold \<le> x then PosInf
      else if x \<le> - overflow_threshold then NegInf
      else Fin x)"

text \<open>
  A small run to evaluate the selectors and the recognizer on. A model is identified
  with its number of states. The trainer fails for four states; a model of \<open>m\<close>
  states gives \<open>- m\<close> per frame as log-likelihood. The word FISH has three one-frame
  instances, the word BOOK one instance of two frames; the complexities are 2 to 4.
\<close>

definition demo_lib :: "int library" where
  "demo_lib =
     \<lparr>GaussianHMM_fit = (\<lambda>n rs x l. if n = 4 then Inl ValueError else Inr n),
      GaussianHMM_score = (\<lambda>m x l. Inr (Fin (- (real_of_int m * real (length x))))),
      KFold_split = sklearn_KFold_split 3,
      rnd = clip_round,
      np_log = (\<lambda>d. if d = 0 then NegInf else clip_round (ln (real d))),
      float_of_int =
        (\<lambda>i. if overflow_threshold \<le> \<bar>real_of_int i\<bar> then Inl OverflowError
             else Inr (Fin (real_of_int i)))\<rparr>"

text \<open>The same with five splits, the default of scikit-learn since release 0.22.\<close>

definition demo5_lib :: "int library" where
  "demo5_lib = demo_lib\<lparr>KFold_split := sklearn_KFold_split 5\<rparr>"

text \<open>A trainer that fails for every complexity.\<close>

definition unfit_lib :: "int library" where
  "unfit_lib = demo_lib\<lparr>GaussianHMM_fit := (\<lambda>n rs x l. Inl ValueError)\<rparr>"

text \<open>A trainer that fits every complexity and a scorer that always raises.\<close>

definition unscored_lib :: "int library" where
  "unscored_lib =
     demo_lib\<lparr>GaussianHMM_fit := (\<lambda>n rs x l. Inr n),
              GaussianHMM_score := (\<lambda>m x l. Inl ValueError)\<rparr>"

text \<open>
  A scorer that gives the model's own number as log-likelihood, and raises for the
  model 0.
\<close>

definition echo_lib :: "int library" where
  "echo_lib =
     demo_lib\<lparr>GaussianHMM_fit := (\<lambda>n rs x l. Inr n),
              GaussianHMM_score :=
                (\<lambda>m x l. if m = 0 then Inl ValueError else Inr (Fin (real_of_int m)))\<rparr>"

text \<open>
  A scorer whose log-likelihood is \<open>- 2 ^ 1023\<close>, a finite double, for every model
  and data; and a scorer under which data of three frames (the target word's) has the
  likelihood zero, so the log-likelihood minus infinity, for every model.
\<close>

definition steep_loglik :: real where
  "steep_loglik = - (2 ^ 1023)"

definition steep_lib :: "int library" where
  "steep_lib = demo_lib\<lparr>GaussianHMM_score := (\<lambda>m x l. Inr (Fin steep_loglik))\<rparr>"

definition zero_likelihood_lib :: "int library" where
  "zero_likelihood_lib =
     demo_lib\<lparr>GaussianHMM_score :=
                (\<lambda>m x l. if length x = 3 then Inr NegInf
                         else Inr (Fin (- (real_of_int m * real (length x)))))\<rparr>"

definition fish :: selector where
  "fish =
     \<lparr>words = [(''FISH'', [[[0]], [[1]], [[2]]]), (''BOOK'', [[[5], [6]]])],
      hwords = [(''FISH'', ([[0], [1], [2]], [1, 1, 1])), (''BOOK'', ([[5], [6]], [2]))],
      sequences = [[[0]], [[1]], [[2]]],
      X_mat = [[0], [1], [2]],
      lengths = [1, 1, 1],
      this_word = ''FISH'',
      n_constant = 3, min_n_components = 2, max_n_components = 4,
      random_state = 14, verbose = False\<rparr>"

text \<open>The same word as the only word of the word map.\<close>

definition fish_alone :: selector where
  "fish_alone =
     fish\<lparr>words := [(''FISH'', [[[0]], [[1]], [[2]]])],
          hwords := [(''FISH'', ([[0], [1], [2]], [1, 1, 1]))]\<rparr>"

text \<open>The same word with two instances only.\<close>

definition fish_pair :: selector where
  "fish_pair =
     fish\<lparr>words := [(''FISH'', [[[0]], [[1]]]), (''BOOK'', [[[5], [6]]])],
          hwords := [(''FISH'', ([[0], [1]], [1, 1])), (''BOOK'', ([[5], [6]], [2]))],
          sequences := [[[0]], [[1]]], X_mat := [[0], [1]], lengths := [1, 1]\<rparr>"

text \<open>The same word with one instance of three frames.\<close>

definition fish_once :: selector where
  "fish_once =
     fish\<lparr>words := [(''FISH'', [[[0], [1], [2]]]), (''BOOK'', [[[5], [6]]])],
          hwords := [(''FISH'', ([[0], [1], [2]], [3])), (''BOOK'', ([[5], [6]], [2]))],
          sequences := [[[0], [1], [2]]], X_mat := [[0], [1], [2]], lengths := [3]\<rparr>"

section \<open>Notions used in the statements\<close>

text \<open>The average score an iteration of the CV selector computes for a complexity.\<close>

definition cv_average :: "'m library \<Rightarrow> selector \<Rightarrow> int \<Rightarrow> pyfloat" where
  "cv_average lib self number_of_states =
     (case cv_try lib self number_of_states of
        (err, current_model, current_score, count) \<Rightarrow>
          num_div_count lib current_score (if count = 0 then 1 else count))"

text \<open>The number of folds scored in the iteration for a complexity.\<close>

definition cv_count :: "'m library \<Rightarrow> selector \<Rightarrow> int \<Rightarrow> nat" where
  "cv_count lib self n = snd (snd (snd (cv_try lib self n)))"

text \<open>
  The scoring fails on every fold the splitter yields (or builds no held-out view, or
  the splitter yields none).
\<close>

definition cv_every_score_fails :: "'m library \<Rightarrow> selector \<Rightarrow> int \<Rightarrow> bool" where
  "cv_every_score_fails lib self n =
     (case KFold_split lib (sequences self) of
        Inl e \<Rightarrow> True
      | Inr folds \<Rightarrow>
          list_all (\<lambda>(train, test).
            case combine_sequences test (sequences self) of
              Inl e \<Rightarrow> True
            | Inr (test_x, test_lengths) \<Rightarrow>
                isl (model_score lib (base_model lib self n) test_x test_lengths)) folds)"

text \<open>The running best score is not below 0: the comparison \<open>0.0 > best_score\<close> fails.\<close>

definition zero_not_above :: "'m option \<times> pyfloat \<Rightarrow> bool" where
  "zero_not_above st = (\<not> flt (snd st) (Fin 0))"

text \<open>The scoring of a test item by a word's model succeeds.\<close>

definition scores_ok :: "'m library \<Rightarrow> frame list \<Rightarrow> nat list \<Rightarrow> string \<times> 'm option \<Rightarrow> bool" where
  "scores_ok lib x x_lengths wm = (case wm of (w, m) \<Rightarrow> \<not> isl (model_score lib m x x_lengths))"

text \<open>
  Keeping the first best of a run of candidates: \<open>cand\<close> gives a candidate's
  model and score, or None for a candidate that takes no part; a later candidate
  replaces the one kept only when its score is strictly better.
\<close>

definition keep_first ::
  "('s \<Rightarrow> 's \<Rightarrow> bool) \<Rightarrow> ('a \<Rightarrow> ('b \<times> 's) option) \<Rightarrow> ('b \<times> 's) option \<Rightarrow> 'a
     \<Rightarrow> ('b \<times> 's) option" where
  "keep_first better cand acc n =
     (case cand n of
        None \<Rightarrow> acc
      | Some (m, s) \<Rightarrow>
          (case acc of
             None \<Rightarrow> Some (m, s)
           | Some (m0, s0) \<Rightarrow> if better s s0 then Some (m, s) else acc))"

text \<open>
  \<open>first_best better cand ns r\<close>: \<open>r\<close> is the first candidate of \<open>ns\<close>
  that no candidate of \<open>ns\<close> is better than, strictly better than every candidate
  before it; or None, when no candidate takes part.
\<close>

definition first_best ::
  "('s \<Rightarrow> 's \<Rightarrow> bool) \<Rightarrow> ('a \<Rightarrow> ('b \<times> 's) option) \<Rightarrow> 'a list \<Rightarrow> ('b \<times> 's) option \<Rightarrow> bool" where
  "first_best better cand ns r =
     (case r of
        None \<Rightarrow> list_all (\<lambda>n. cand n = None) ns
      | Some (m, s) \<Rightarrow>
          (\<exists>pre n post. ns = pre @ n # post \<and> cand n = Some (m, s) \<and>
             list_all (\<lambda>k. case cand k of None \<Rightarrow> True | Some (m', t) \<Rightarrow> better s t) pre \<and>
             list_all (\<lambda>k. case cand k of None \<Rightarrow> True | Some (m', t) \<Rightarrow> \<not> better t s) post))"

text \<open>The selector's state \<open>(best_model, best_score)\<close> for a candidate kept.\<close>

definition lift_best :: "'b \<times> pyfloat \<Rightarrow> ('b \<times> pyfloat) option \<Rightarrow> 'b \<times> pyfloat" where
  "lift_best init r = (case r of None \<Rightarrow> init | Some (m, s) \<Rightarrow> (m, s))"

text \<open>
  The Bayesian information criterion of a complexity as the specification states it,
  computed in double arithmetic: \<open>BIC = -2 L + p ln d\<close>, with \<open>L\<close> the
  log-likelihood of the training data under the model fit for \<open>n\<close> states,
  \<open>p = n\<^sup>2 + 2 n d - 1\<close> and \<open>d\<close> the number of training instances of the word.
  It is defined when the fit, the scoring and the conversion of \<open>p\<close> succeed.
\<close>

definition BIC_computed :: "'m library \<Rightarrow> selector \<Rightarrow> int \<Rightarrow> pyfloat option" where
  "BIC_computed lib self n =
     (case base_model lib self n of
        None \<Rightarrow> None
      | Some h \<Rightarrow>
          (case GaussianHMM_score lib h (X_mat self) (lengths self) of
             Inl e \<Rightarrow> None
           | Inr L \<Rightarrow>
               (let d = length (lengths self);
                    p = n\<^sup>2 + 2 * n * int d - 1
                in case float_of_int lib p of
                     Inl e \<Rightarrow> None
                   | Inr pf \<Rightarrow>
                       Some (fl_add lib (fl_mul lib (Fin (- 2)) L)
                                        (fl_mul lib pf (np_log lib d))))))"

text \<open>
  A complexity takes part in the BIC selection when its BIC is below plus infinity
  (so not NaN either). It is paired with the model fit for it.
\<close>

definition bic_cand :: "'m library \<Rightarrow> selector \<Rightarrow> int \<Rightarrow> ('m option \<times> pyfloat) option" where
  "bic_cand lib self n =
     (case BIC_computed lib self n of
        None \<Rightarrow> None
      | Some b \<Rightarrow> if flt b PosInf then Some (base_model lib self n, b) else None)"

text \<open>The words of the word map, and those other than the target word, in the dict's order.\<close>

definition word_set :: "selector \<Rightarrow> string set" where
  "word_set self = fst ` set (hwords self)"

definition other_words :: "selector \<Rightarrow> string list" where
  "other_words self = filter (\<lambda>w. w \<noteq> this_word self) (dict_keys (hwords self))"

text \<open>The log-likelihood of a word's own data under a model.\<close>

definition word_loglik :: "'m library \<Rightarrow> selector \<Rightarrow> 'm \<Rightarrow> string \<Rightarrow> error + pyfloat" where
  "word_loglik lib self h w =
     (case dict_get (hwords self) w of
        Inl e \<Rightarrow> Inl e
      | Inr (x_w, l_w) \<Rightarrow> GaussianHMM_score lib h x_w l_w)"

text \<open>
  The discriminative criterion of a complexity as the specification states it,
  computed in double arithmetic: \<open>DIC = L_self - (1 / (M - 1)) L_other\<close>, with
  \<open>M\<close> the number of distinct words of the word map and \<open>L_other\<close> the sum, over
  every word of the map but the target and in the map's order, of the log-likelihood of
  that word's data under the model fit for \<open>n\<close> states. It is defined when the fit
  and every scoring succeed and \<open>M\<close> is not 1.
\<close>

definition DIC_computed :: "'m library \<Rightarrow> selector \<Rightarrow> int \<Rightarrow> pyfloat option" where
  "DIC_computed lib self n =
     (case base_model lib self n of
        None \<Rightarrow> None
      | Some h \<Rightarrow>
          (case GaussianHMM_score lib h (X_mat self) (lengths self) of
             Inl e \<Rightarrow> None
           | Inr L_self \<Rightarrow>
               if list_ex (\<lambda>w. isl (word_loglik lib self h w)) (other_words self) then None
               else
                 (let M = int (card (word_set self));
                      L_other = foldl (fl_add lib) (Fin 0)
                                  (map (\<lambda>w. projr (word_loglik lib self h w)) (other_words self))
                  in case py_truediv lib 1 (M - 1) of
                       Inl e \<Rightarrow> None
                     | Inr q \<Rightarrow> Some (fl_sub lib L_self (fl_mul lib q L_other)))))"

text \<open>
  A complexity takes part in the DIC selection when its DIC is above minus infinity
  (so not NaN either).
\<close>

definition dic_cand :: "'m library \<Rightarrow> selector \<Rightarrow> int \<Rightarrow> ('m option \<times> pyfloat) option" where
  "dic_cand lib self n =
     (case DIC_computed lib self n of
        None \<Rightarrow> None
      | Some d \<Rightarrow> if flt NegInf d then Some (base_model lib self n, d) else None)"

text \<open>
  A fold of \<open>n\<close> indices: a non-empty test part within \<open>0..n-1\<close> and the
  remaining indices as training part.
\<close>

definition valid_fold :: "nat \<Rightarrow> nat list \<times> nat list \<Rightarrow> bool" where
  "valid_fold n fd =
     (snd fd \<noteq> [] \<and> set (fst fd) = {0..<n} - set (snd fd) \<and> set (snd fd) \<subseteq> {0..<n})"

section \<open>Properties\<close>

subsection \<open>The instances are selectors as the constructor builds them\<close>

lemma fish_constructed:
  "ModelSelector_init (words fish) (hwords fish) ''FISH'' 3 2 4 14 False = Inr fish"
  "ModelSelector_init (words fish_pair) (hwords fish_pair) ''FISH'' 3 2 4 14 False = Inr fish_pair"
  "ModelSelector_init (words fish_alone) (hwords fish_alone) ''FISH'' 3 2 4 14 False = Inr fish_alone"
  "ModelSelector_init (words fish_once) (hwords fish_once) ''FISH'' 3 2 4 14 False = Inr fish_once"
  "ModelSelector_init (words fish) (hwords fish) ''EEL'' 3 2 4 14 False = Inl KeyError"
  by (simp_all add: ModelSelector_init_def dict_get_def fish_def fish_pair_def fish_alone_def
        fish_once_def)

subsection \<open>Loops that leave their state alone\<close>

lemma foldl_unchanged: "(\<And>n. n \<in> set ns \<Longrightarrow> f st n = st) \<Longrightarrow> foldl f st ns = st"
  by (induction ns) simp_all

lemma foldl_fst_None:
  "fst st = None \<Longrightarrow> (\<And>s n. n \<in> set ns \<Longrightarrow> fst (f (None, s) n) = None)
     \<Longrightarrow> fst (foldl f st ns) = None"
proof (induction ns arbitrary: st)
  case Nil
  then show ?case by simp
next
  case (Cons a ns)
  obtain m s where st: "st = (m, s)" by (cases st)
  with Cons.prems(1) have m: "m = None" by simp
  have "fst (f st a) = None" using Cons.prems(2) [of a s] st m by simp
  moreover have "\<And>s n. n \<in> set ns \<Longrightarrow> fst (f (None, s) n) = None"
    using Cons.prems(2) by simp
  ultimately have "fst (foldl f (f st a) ns) = None" by (rule Cons.IH)
  then show ?case by simp
qed

lemma model_score_None: "model_score lib None x l = Inl AttributeError"
  by (simp add: model_score_def)

lemma bic_try_unfit: "base_model lib self n = None \<Longrightarrow> bic_try lib self n = Inl AttributeError"
  by (simp add: bic_try_def model_score_None)

lemma dic_try_unfit: "base_model lib self n = None \<Longrightarrow> dic_try lib self n = Inl AttributeError"
  by (simp add: dic_try_def model_score_None)

lemma cv_try_model: "fst (snd (cv_try lib self n)) = base_model lib self n"
  by (simp add: cv_try_def Let_def split: sum.splits prod.splits)

lemma cv_step_fst:
  "fst (cv_step lib self st n) = base_model lib self n \<or> cv_step lib self st n = st"
  using cv_try_model [of lib self n]
  by (auto simp: cv_step_def Let_def split: prod.splits)

subsection \<open>No candidate fits\<close>

text \<open>
  C4. If the fit of the constant complexity fails, the constant selector returns
  absence; if the fit fails for every complexity from \<open>min_n_components\<close> to
  \<open>max_n_components\<close>, the BIC, DIC and CV selectors return absence.
\<close>

theorem all_fits_fail_gives_absence:
  "(base_model lib self (n_constant self) = None \<longrightarrow> SelectorConstant_select lib self = None) \<and>
   ((\<forall>n. min_n_components self \<le> n \<and> n \<le> max_n_components self \<longrightarrow> base_model lib self n = None)
      \<longrightarrow> SelectorBIC_select lib self = None \<and> SelectorDIC_select lib self = None \<and>
          SelectorCV_select lib self = None)"
proof (intro conjI impI)
  assume "base_model lib self (n_constant self) = None"
  then show "SelectorConstant_select lib self = None" by (simp add: SelectorConstant_select_def)
next
  assume a: "\<forall>n. min_n_components self \<le> n \<and> n \<le> max_n_components self \<longrightarrow> base_model lib self n = None"
  let ?ns = "[min_n_components self .. max_n_components self]"
  have un: "\<And>n. n \<in> set ?ns \<Longrightarrow> base_model lib self n = None" using a by simp
  have "foldl (bic_step lib self) (None, PosInf) ?ns = (None, PosInf)"
    by (rule foldl_unchanged) (simp add: bic_step_def bic_try_unfit un del: set_upto)
  then show "SelectorBIC_select lib self = None" by (simp add: SelectorBIC_select_def)
  have "foldl (dic_step lib self) (None, NegInf) ?ns = (None, NegInf)"
    by (rule foldl_unchanged) (simp add: dic_step_def dic_try_unfit un del: set_upto)
  then show "SelectorDIC_select lib self = None" by (simp add: SelectorDIC_select_def)
  have "fst (foldl (cv_step lib self) (None, NegInf) ?ns) = None"
  proof (rule foldl_fst_None)
    show "fst (None, NegInf) = None" by simp
  next
    fix s n assume "n \<in> set ?ns"
    then have "base_model lib self n = None" by (rule un)
    then show "fst (cv_step lib self (None, s) n) = None"
      using cv_step_fst [of lib self "(None, s)" n] by auto
  qed
  then show "SelectorCV_select lib self = None" by (simp add: SelectorCV_select_def)
qed

theorem all_fits_fail_gives_absence_witness:
  "base_model unfit_lib fish (n_constant fish) = None \<and>
   SelectorConstant_select unfit_lib fish = None \<and>
   SelectorBIC_select unfit_lib fish = None \<and> SelectorDIC_select unfit_lib fish = None \<and>
   SelectorCV_select unfit_lib fish = None"
  using all_fits_fail_gives_absence [of unfit_lib fish]
  by (simp add: base_model_def unfit_lib_def)

subsection \<open>The recognizer's output\<close>

lemma recognize_foldl:
  "foldl (recognize_step lib models) (ps, gs) ts =
     (ps @ map (\<lambda>(i, x, l). fst (recognize_item lib models x l)) ts,
      gs @ map (\<lambda>(i, x, l). snd (snd (recognize_item lib models x l))) ts)"
  by (induction ts arbitrary: ps gs) (auto simp: recognize_step_def split: prod.splits)

text \<open>
  C6. The two lists \<open>recognize\<close> returns hold, item by item in the order of the test
  set, the score distribution and the best guess computed for that item: each has as
  many entries as there are test items.
\<close>

theorem recognize_one_entry_per_item_in_order:
  "recognize lib models test_set =
     (map (\<lambda>(i, x, l). fst (recognize_item lib models x l)) test_set,
      map (\<lambda>(i, x, l). snd (snd (recognize_item lib models x l))) test_set) \<and>
   length (fst (recognize lib models test_set)) = length test_set \<and>
   length (snd (recognize lib models test_set)) = length test_set"
  by (simp add: recognize_def recognize_foldl)

subsection \<open>DIC with a single word\<close>

lemma dic_try_single_word:
  "length (hwords self) = 1 \<Longrightarrow> \<exists>e. dic_try lib self n = Inl e"
  by (simp add: dic_try_def py_truediv_def Let_def split: sum.splits)

text \<open>
  C10. When the word map holds exactly one word, the DIC selector returns absence
  whatever the complexity range and whatever the trainer and the scorer do: the division
  by \<open>M - 1 = 0\<close> raises in every iteration.
\<close>

theorem SelectorDIC_single_word_absence:
  assumes "length (hwords self) = 1"
  shows "SelectorDIC_select lib self = None"
proof -
  have "foldl (dic_step lib self) (None, NegInf) [min_n_components self .. max_n_components self]
          = (None, NegInf)"
  proof (rule foldl_unchanged)
    fix n
    from dic_try_single_word [OF assms] obtain e where "dic_try lib self n = Inl e" by blast
    then show "dic_step lib self (None, NegInf) n = (None, NegInf)" by (simp add: dic_step_def)
  qed
  then show ?thesis by (simp add: SelectorDIC_select_def)
qed

theorem SelectorDIC_single_word_absence_witness:
  "length (hwords fish_alone) = 1 \<and> base_model demo_lib fish_alone 2 = Some 2 \<and>
   SelectorDIC_select demo_lib fish_alone = None"
  using SelectorDIC_single_word_absence [of fish_alone demo_lib]
  by (simp add: fish_alone_def fish_def base_model_def demo_lib_def)

subsection \<open>The cross-validation selector and failed candidates\<close>

lemma flt_irrefl: "\<not> flt a a"
  by (cases a) simp_all

lemma cv_folds_count:
  "cv_folds lib self m folds (s0, c0) = (err, s, c) \<Longrightarrow> c0 \<le> c \<and> (c = c0 \<longrightarrow> s = s0)"
proof (induction folds arbitrary: s0 c0)
  case Nil
  then show ?case by simp
next
  case (Cons f folds)
  obtain train test where f: "f = (train, test)" by (cases f)
  show ?case
  proof (cases "combine_sequences train (sequences self)")
    case (Inl e)
    with Cons.prems f show ?thesis by simp
  next
    case tr: (Inr a)
    obtain trx trl where a: "a = (trx, trl)" by (cases a)
    show ?thesis
    proof (cases "combine_sequences test (sequences self)")
      case (Inl e)
      with Cons.prems f tr a show ?thesis by simp
    next
      case te: (Inr b)
      obtain tx tl where b: "b = (tx, tl)" by (cases b)
      show ?thesis
      proof (cases "model_score lib m tx tl")
        case (Inl e)
        with Cons.prems f tr a te b show ?thesis by simp
      next
        case (Inr v)
        with Cons.prems f tr a te b
        have "cv_folds lib self m folds (PyFloat (num_add lib s0 v), c0 + 1) = (err, s, c)" by simp
        from Cons.IH [OF this] show ?thesis by simp
      qed
    qed
  qed
qed

lemma cv_folds_unfit: "cv_folds lib self None folds (s0, c0) = (err, s, c) \<Longrightarrow> s = s0 \<and> c = c0"
  by (cases folds) (auto simp: model_score_None split: sum.splits prod.splits)

lemma cv_try_zero_count:
  assumes "cv_try lib self n = (err, m, s, c)" and "c = 0"
  shows "s = PyZero"
proof (cases "KFold_split lib (sequences self)")
  case (Inl e)
  with assms show ?thesis by (simp add: cv_try_def)
next
  case (Inr folds)
  obtain e' s' c' where r: "cv_folds lib self (base_model lib self n) folds (PyZero, 0) = (e', s', c')"
    by (cases "cv_folds lib self (base_model lib self n) folds (PyZero, 0)") auto
  with assms Inr have "s' = s" "c' = c" by (simp_all add: cv_try_def)
  with cv_folds_count [OF r] assms(2) show ?thesis by simp
qed

lemma cv_average_zero_count: "cv_count lib self n = 0 \<Longrightarrow> cv_average lib self n = Fin 0"
proof -
  assume c: "cv_count lib self n = 0"
  obtain err m s k where t: "cv_try lib self n = (err, m, s, k)"
    by (cases "cv_try lib self n") auto
  with c have "k = 0" by (simp add: cv_count_def)
  with cv_try_zero_count [OF t] have "s = PyZero" by simp
  with t \<open>k = 0\<close> show ?thesis by (simp add: cv_average_def)
qed

lemma cv_count_unfit: "base_model lib self n = None \<Longrightarrow> cv_count lib self n = 0"
proof -
  assume u: "base_model lib self n = None"
  show ?thesis
  proof (cases "KFold_split lib (sequences self)")
    case (Inl e)
    then show ?thesis by (simp add: cv_count_def cv_try_def)
  next
    case (Inr folds)
    obtain e' s' c' where r: "cv_folds lib self None folds (PyZero, 0) = (e', s', c')"
      by (cases "cv_folds lib self None folds (PyZero, 0)") auto
    from cv_folds_unfit [OF r] have "c' = 0" by simp
    with Inr r u show ?thesis by (simp add: cv_count_def cv_try_def)
  qed
qed

lemma cv_count_every_score_fails:
  assumes "cv_every_score_fails lib self n"
  shows "cv_count lib self n = 0"
proof (cases "KFold_split lib (sequences self)")
  case (Inl e)
  then show ?thesis by (simp add: cv_count_def cv_try_def)
next
  case (Inr folds)
  show ?thesis
  proof (cases folds)
    case Nil
    with Inr show ?thesis by (simp add: cv_count_def cv_try_def)
  next
    case (Cons f rest)
    obtain train test where f: "f = (train, test)" by (cases f)
    from assms Inr Cons f
    have "case combine_sequences test (sequences self) of
              Inl e \<Rightarrow> True
            | Inr (test_x, test_lengths) \<Rightarrow>
                isl (model_score lib (base_model lib self n) test_x test_lengths)"
      by (simp add: cv_every_score_fails_def)
    then have z: "snd (snd (cv_folds lib self (base_model lib self n) ((train, test) # rest) (PyZero, 0))) = 0"
      by (auto split: sum.splits prod.splits simp: isl_def)
    obtain e' s' c' where r: "cv_folds lib self (base_model lib self n) folds (PyZero, 0) = (e', s', c')"
      by (cases "cv_folds lib self (base_model lib self n) folds (PyZero, 0)") auto
    from z r Cons f have "c' = 0" by simp
    with Inr r show ?thesis by (simp add: cv_count_def cv_try_def)
  qed
qed

lemma cv_step_eq:
  "cv_step lib self st n =
     (if fgt (cv_average lib self n) (snd st)
      then (base_model lib self n, cv_average lib self n) else st)"
  using cv_try_model [of lib self n]
  by (auto simp: cv_step_def cv_average_def Let_def split: prod.splits)

lemma zero_not_above_step: "zero_not_above st \<Longrightarrow> zero_not_above (cv_step lib self st n)"
  unfolding zero_not_above_def cv_step_eq fgt_def
  by (cases "snd st"; cases "cv_average lib self n") auto

lemma zero_not_above_foldl:
  "zero_not_above st \<Longrightarrow> zero_not_above (foldl (cv_step lib self) st ns)"
  by (induction ns arbitrary: st) (simp_all add: zero_not_above_step)

lemma zero_not_above_after_zero:
  "cv_average lib self c = Fin 0 \<Longrightarrow> zero_not_above (cv_step lib self st c)"
  unfolding zero_not_above_def cv_step_eq fgt_def
  by (cases "snd st") auto

lemma zero_not_above_negative:
  "zero_not_above st \<Longrightarrow> flt (cv_average lib self n) (Fin 0) \<Longrightarrow> cv_step lib self st n = st"
  unfolding zero_not_above_def cv_step_eq fgt_def
  by (cases "snd st"; cases "cv_average lib self n") auto

text \<open>
  C9. A candidate whose fit fails, or for which the scoring of every fold fails, has
  the average 0.0 and is compared with the running best like any other: it replaces it
  when the best is below 0. Once a candidate of average 0.0 has been processed, a later
  candidate of negative average leaves the state as it is, after any number of
  iterations in between: it does not become the winner.
\<close>

theorem cv_failed_candidate_scores_zero:
  "(base_model lib self c = None \<longrightarrow> cv_average lib self c = Fin 0) \<and>
   (cv_every_score_fails lib self c \<longrightarrow> cv_average lib self c = Fin 0) \<and>
   (cv_average lib self c = Fin 0 \<longrightarrow>
      cv_step lib self st c = (if fgt (Fin 0) (snd st) then (base_model lib self c, Fin 0) else st)) \<and>
   (cv_average lib self c = Fin 0 \<and> flt (cv_average lib self n) (Fin 0) \<longrightarrow>
      cv_step lib self (foldl (cv_step lib self) st (c # later)) n
        = foldl (cv_step lib self) st (c # later))"
proof (intro conjI impI)
  assume "base_model lib self c = None"
  then show "cv_average lib self c = Fin 0" by (simp add: cv_count_unfit cv_average_zero_count)
next
  assume "cv_every_score_fails lib self c"
  then show "cv_average lib self c = Fin 0"
    by (simp add: cv_count_every_score_fails cv_average_zero_count)
next
  assume "cv_average lib self c = Fin 0"
  then show "cv_step lib self st c = (if fgt (Fin 0) (snd st) then (base_model lib self c, Fin 0) else st)"
    by (simp add: cv_step_eq)
next
  assume a: "cv_average lib self c = Fin 0 \<and> flt (cv_average lib self n) (Fin 0)"
  then have "zero_not_above (cv_step lib self st c)" by (simp add: zero_not_above_after_zero)
  then have "zero_not_above (foldl (cv_step lib self) (cv_step lib self st c) later)"
    by (rule zero_not_above_foldl)
  then have "zero_not_above (foldl (cv_step lib self) st (c # later))" by simp
  with a show "cv_step lib self (foldl (cv_step lib self) st (c # later)) n
        = foldl (cv_step lib self) st (c # later)"
    by (simp add: zero_not_above_negative del: foldl_Cons)
qed

lemma overflow_threshold_big: "1000 < overflow_threshold"
  by (simp add: overflow_threshold_def)

lemma clip_round_small: "\<bar>x\<bar> \<le> 1000 \<Longrightarrow> clip_round x = Fin x"
  using overflow_threshold_big by (auto simp: clip_round_def)

lemma demo_arith:
  "rnd demo_lib = clip_round"
  "np_log demo_lib d = (if d = 0 then NegInf else clip_round (ln (real d)))"
  "float_of_int demo_lib i =
     (if overflow_threshold \<le> \<bar>real_of_int i\<bar> then Inl OverflowError
      else Inr (Fin (real_of_int i)))"
  "KFold_split demo_lib = sklearn_KFold_split 3"
  by (simp_all add: demo_lib_def)

lemma demo_ops:
  "\<bar>a + b\<bar> \<le> 1000 \<Longrightarrow> fl_add demo_lib (Fin a) (Fin b) = Fin (a + b)"
  "\<bar>a - b\<bar> \<le> 1000 \<Longrightarrow> fl_sub demo_lib (Fin a) (Fin b) = Fin (a - b)"
  "\<bar>a * b\<bar> \<le> 1000 \<Longrightarrow> fl_mul demo_lib (Fin a) (Fin b) = Fin (a * b)"
  "\<bar>a / real c\<bar> \<le> 1000 \<Longrightarrow> fl_div_count demo_lib (Fin a) c = Fin (a / real c)"
  by (simp_all add: fl_add_def fl_sub_def fl_mul_def fl_div_count_def fl_round_def demo_arith
        clip_round_small)

lemma score_demo:
  "GaussianHMM_score demo_lib m x l = Inr (Fin (- (real_of_int m * real (length x))))"
  by (simp add: demo_lib_def)

lemma model_score_demo:
  "model_score demo_lib (Some m) x l = Inr (Fin (- (real_of_int m * real (length x))))"
  by (simp add: model_score_def score_demo)

lemma base_model_demo: "base_model demo_lib s n = (if n = 4 then None else Some n)"
  by (simp add: base_model_def demo_lib_def)

lemma fish_fields:
  "X_mat fish = [[0], [1], [2]]" "lengths fish = [1, 1, 1]" "this_word fish = ''FISH''"
  "hwords fish = [(''FISH'', ([[0], [1], [2]], [1, 1, 1])), (''BOOK'', ([[5], [6]], [2]))]"
  "sequences fish = [[[0]], [[1]], [[2]]]"
  "min_n_components fish = 2" "max_n_components fish = 4"
  by (simp_all add: fish_def)

lemma folds3:
  "sklearn_KFold_split 3 [[[0]], [[1]], [[2]]] = Inr [([1, 2], [0]), ([0, 2], [1]), ([0, 1], [2])]"
  by (simp add: sklearn_KFold_split_def fold_sizes_def upt_conv_Cons)

lemma cv_try_demo_2: "cv_try demo_lib fish 2 = (None, Some 2, PyFloat (Fin (- 6)), 3)"
  by (simp add: cv_try_def fish_fields demo_arith base_model_demo folds3 combine_sequences_def
        model_score_demo demo_ops)

lemma cv_try_demo_3: "cv_try demo_lib fish 3 = (None, Some 3, PyFloat (Fin (- 9)), 3)"
  by (simp add: cv_try_def fish_fields demo_arith base_model_demo folds3 combine_sequences_def
        model_score_demo demo_ops)

lemma cv_try_demo_4: "cv_try demo_lib fish 4 = (Some AttributeError, None, PyZero, 0)"
  by (simp add: cv_try_def fish_fields demo_arith base_model_demo folds3 combine_sequences_def
        model_score_None)

lemma fish_range: "[min_n_components fish .. max_n_components fish] = [2, 3, 4]"
  by (simp add: fish_fields upto_rec1)

lemma every_score_fails_unscored: "cv_every_score_fails unscored_lib fish 2"
  by (simp add: cv_every_score_fails_def unscored_lib_def demo_lib_def fish_fields folds3
        combine_sequences_def model_score_def base_model_def)

lemma cv_average_demo:
  "cv_average demo_lib fish 2 = Fin (- 2)" "cv_average demo_lib fish 3 = Fin (- 3)"
  "cv_average demo_lib fish 4 = Fin 0"
  by (simp_all add: cv_average_def cv_try_demo_2 cv_try_demo_3 cv_try_demo_4 demo_ops)

theorem cv_failed_candidate_scores_zero_witness:
  "base_model demo_lib fish 4 = None \<and> cv_average demo_lib fish 4 = Fin 0 \<and>
   flt (cv_average demo_lib fish 2) (Fin 0) \<and>
   cv_step demo_lib fish (None, Fin (- 2)) 4 = (None, Fin 0) \<and>
   cv_step demo_lib fish (foldl (cv_step demo_lib fish) (None, NegInf) [4, 3]) 2
     = foldl (cv_step demo_lib fish) (None, NegInf) [4, 3] \<and>
   cv_every_score_fails unscored_lib fish 2 \<and> cv_average unscored_lib fish 2 = Fin 0"
proof -
  have a: "base_model demo_lib fish 4 = None" by (simp add: base_model_demo)
  have b: "flt (cv_average demo_lib fish 2) (Fin 0)" by (simp add: cv_average_demo)
  have c: "cv_average demo_lib fish 4 = Fin 0"
    using a cv_failed_candidate_scores_zero [of demo_lib fish 4] by simp
  show ?thesis
    using a b c every_score_fails_unscored
      cv_failed_candidate_scores_zero [of demo_lib fish 4 "(None, Fin (- 2))"]
      cv_failed_candidate_scores_zero [of demo_lib fish 4 "(None, NegInf)" 2 "[3]"]
      cv_failed_candidate_scores_zero [of unscored_lib fish 2]
    by (simp add: fgt_def del: foldl_Cons)
qed

subsection \<open>A failed fit in the cross-validation selector\<close>

text \<open>
  C1, evaluated. The complexities 2 and 3 fit and have the averages -2 and -3, so that
  after them the model of complexity 2 is the running winner. The fit of complexity 4
  fails; its iteration is compared all the same, with the average 0.0, and puts the
  absent model in the winner's place: \<open>select\<close> returns absence although two
  candidates were fit.
\<close>

theorem SelectorCV_failed_fit_displaces_winner:
  "base_model demo_lib fish 2 = Some 2 \<and> cv_average demo_lib fish 2 = Fin (- 2) \<and>
   base_model demo_lib fish 4 = None \<and>
   foldl (cv_step demo_lib fish) (None, NegInf) [2, 3] = (Some 2, Fin (- 2)) \<and>
   SelectorCV_select demo_lib fish = None"
  by (simp add: SelectorCV_select_def fish_range cv_step_eq cv_average_demo base_model_demo fgt_def)

subsection \<open>Words the recognizer cannot score\<close>

lemma recognize_word_fails:
  "\<not> scores_ok lib x l wm \<Longrightarrow> recognize_word lib x l st wm = st"
  by (cases wm; cases st) (auto simp: scores_ok_def recognize_word_def isl_def)

lemma recognize_foldl_filter:
  "foldl (recognize_word lib x l) st models
     = foldl (recognize_word lib x l) st (filter (scores_ok lib x l) models)"
  by (induction models arbitrary: st) (simp_all add: recognize_word_fails)

lemma recognize_word_dom:
  "scores_ok lib x l (w, m) \<Longrightarrow>
     dom (fst (recognize_word lib x l (a, b, c) (w, m))) = insert w (dom a)"
  by (cases "model_score lib m x l")
     (auto simp: scores_ok_def recognize_word_def dict_setdefault_def split: option.splits)

lemma recognize_foldl_dom:
  "dom (fst (foldl (recognize_word lib x l) st models))
     = dom (fst st) \<union> fst ` set (filter (scores_ok lib x l) models)"
proof (induction models arbitrary: st)
  case Nil
  then show ?case by simp
next
  case (Cons wm models)
  obtain w m where wm: "wm = (w, m)" by (cases wm)
  obtain a b c where st: "st = (a, b, c)" by (cases st)
  show ?case
  proof (cases "scores_ok lib x l wm")
    case True
    with wm st have "dom (fst (recognize_word lib x l st wm)) = insert w (dom (fst st))"
      by (simp add: recognize_word_dom)
    with True wm show ?thesis by (simp add: Cons.IH)
  next
    case False
    then show ?thesis by (simp add: recognize_word_fails Cons.IH)
  qed
qed

text \<open>
  C7. For a test item, the words whose model fails to score it (the model is absent or
  the scorer raises) take no part: the item's result is the one computed from the other
  words alone, and the keys of its score distribution are exactly the words that were
  scored. If every word fails, the distribution is empty and the best guess is the empty
  label.
\<close>

theorem recognize_failed_words_left_out:
  "recognize_item lib models x l
     = recognize_item lib (filter (scores_ok lib x l) models) x l \<and>
   dom (fst (recognize_item lib models x l)) = fst ` set (filter (scores_ok lib x l) models) \<and>
   (list_all (\<lambda>wm. \<not> scores_ok lib x l wm) models \<longrightarrow>
      recognize_item lib models x l = (Map.empty, NegInf, []))"
proof (intro conjI impI)
  show "recognize_item lib models x l = recognize_item lib (filter (scores_ok lib x l) models) x l"
    unfolding recognize_item_def by (rule recognize_foldl_filter)
  show "dom (fst (recognize_item lib models x l)) = fst ` set (filter (scores_ok lib x l) models)"
    unfolding recognize_item_def by (simp add: recognize_foldl_dom)
next
  assume "list_all (\<lambda>wm. \<not> scores_ok lib x l wm) models"
  then have "filter (scores_ok lib x l) models = []" by (simp add: list_all_iff filter_empty_conv)
  then have "foldl (recognize_word lib x l) (Map.empty, NegInf, []) models = (Map.empty, NegInf, [])"
    using recognize_foldl_filter [of lib x l "(Map.empty, NegInf, [])" models] by simp
  then show "recognize_item lib models x l = (Map.empty, NegInf, [])"
    by (simp add: recognize_item_def)
qed

lemma model_score_echo:
  "model_score echo_lib m x l =
     (case m of None \<Rightarrow> Inl AttributeError
      | Some h \<Rightarrow> if h = 0 then Inl ValueError else Inr (Fin (real_of_int h)))"
  by (simp add: model_score_def echo_lib_def split: option.splits)

text \<open>The scenario of the specification: CAT scores -50, DOG scores -42.\<close>

lemma recognize_cat_dog:
  "recognize echo_lib [(''CAT'', Some (- 50)), (''DOG'', Some (- 42))] [(0, [[1]], [1])]
     = ([[''CAT'' \<mapsto> Fin (- 50), ''DOG'' \<mapsto> Fin (- 42)]], [''DOG''])"
  by (simp add: recognize_def recognize_step_def recognize_item_def recognize_word_def model_score_echo
        dict_setdefault_def fgt_def)

theorem recognize_failed_words_left_out_witness:
  "list_all (\<lambda>wm. \<not> scores_ok echo_lib [[1]] [1] wm) [(''CAT'', None), (''DOG'', Some 0)] \<and>
   recognize_item echo_lib [(''CAT'', None), (''DOG'', Some 0)] [[1]] [1] = (Map.empty, NegInf, []) \<and>
   recognize_item echo_lib [(''CAT'', Some (- 50)), (''EEL'', None), (''DOG'', Some (- 42))] [[1]] [1]
     = recognize_item echo_lib [(''CAT'', Some (- 50)), (''DOG'', Some (- 42))] [[1]] [1] \<and>
   dom (fst (recognize_item echo_lib
               [(''CAT'', Some (- 50)), (''EEL'', None), (''DOG'', Some (- 42))] [[1]] [1]))
     = {''CAT'', ''DOG''}"
proof -
  let ?x = "[[1]] :: frame list" and ?l = "[1] :: nat list"
  let ?none = "[(''CAT'', None), (''DOG'', Some 0)] :: int option dict"
  let ?three = "[(''CAT'', Some (- 50)), (''EEL'', None), (''DOG'', Some (- 42))] :: int option dict"
  have h: "list_all (\<lambda>wm. \<not> scores_ok echo_lib ?x ?l wm) ?none"
    by (simp add: scores_ok_def model_score_echo)
  have f: "filter (scores_ok echo_lib ?x ?l) ?three = [(''CAT'', Some (- 50)), (''DOG'', Some (- 42))]"
    by (simp add: scores_ok_def model_score_echo)
  from h recognize_failed_words_left_out [of echo_lib ?none ?x ?l]
  have 1: "recognize_item echo_lib ?none ?x ?l = (Map.empty, NegInf, [])" by blast
  note T = recognize_failed_words_left_out [of echo_lib ?three ?x ?l, unfolded f]
  from T have 2: "recognize_item echo_lib ?three ?x ?l
             = recognize_item echo_lib [(''CAT'', Some (- 50)), (''DOG'', Some (- 42))] ?x ?l"
    by blast
  from T have "dom (fst (recognize_item echo_lib ?three ?x ?l))
                 = fst ` set [(''CAT'', Some (- 50)), (''DOG'', Some (- 42 :: int))]"
    by blast
  then have 3: "dom (fst (recognize_item echo_lib ?three ?x ?l)) = {''CAT'', ''DOG''}" by simp
  from h 1 2 3 show ?thesis by (intro conjI)
qed

subsection \<open>Ties\<close>

lemma fish_once_fields:
  "X_mat fish_once = [[0], [1], [2]]" "lengths fish_once = [3]" "this_word fish_once = ''FISH''"
  "min_n_components fish_once = 2" "max_n_components fish_once = 4"
  by (simp_all add: fish_once_def fish_def)

lemma np_log_demo_1: "np_log demo_lib (Suc 0) = Fin 0"
  by (simp add: demo_arith clip_round_small)

lemma float_of_int_demo: "\<bar>real_of_int i\<bar> \<le> 1000 \<Longrightarrow> float_of_int demo_lib i = Inr (Fin (real_of_int i))"
  using overflow_threshold_big by (simp add: demo_arith)


lemma py_truediv_demo_1: "py_truediv demo_lib 1 1 = Inr (Fin 1)"
  by (simp add: py_truediv_def demo_arith clip_round_small)




subsection \<open>The first best candidate of a loop\<close>

lemma keep_first_None: "cand n = None \<Longrightarrow> keep_first better cand acc n = acc"
  by (simp add: keep_first_def)

lemma keep_first_init: "cand n = Some (m, s) \<Longrightarrow> keep_first better cand None n = Some (m, s)"
  by (simp add: keep_first_def)

lemma keep_first_Some:
  "cand n = Some (m, s) \<Longrightarrow>
     keep_first better cand (Some (m0, s0)) n = (if better s s0 then Some (m, s) else Some (m0, s0))"
  by (simp add: keep_first_def)

lemmas keep_first_simps = keep_first_None keep_first_init keep_first_Some

lemma first_best_SomeI:
  assumes "ns = pre @ n # post" and "cand n = Some (m, s)"
      and "list_all (\<lambda>k. case cand k of None \<Rightarrow> True | Some (m', t) \<Rightarrow> better s t) pre"
      and "list_all (\<lambda>k. case cand k of None \<Rightarrow> True | Some (m', t) \<Rightarrow> \<not> better t s) post"
  shows "first_best better cand ns (Some (m, s))"
  unfolding first_best_def using assms
  apply simp
  apply (rule exI [of _ pre], rule exI [of _ n], rule exI [of _ post])
  apply simp
  done

lemma first_best_SomeD:
  assumes "first_best better cand ns (Some (m, s))"
  obtains pre n post where "ns = pre @ n # post" and "cand n = Some (m, s)"
      and "list_all (\<lambda>k. case cand k of None \<Rightarrow> True | Some (m', t) \<Rightarrow> better s t) pre"
      and "list_all (\<lambda>k. case cand k of None \<Rightarrow> True | Some (m', t) \<Rightarrow> \<not> better t s) post"
  using assms unfolding first_best_def by auto

lemma first_best_NoneD: "first_best better cand ns None \<Longrightarrow> list_all (\<lambda>n. cand n = None) ns"
  by (simp add: first_best_def)

lemma keep_first_foldl:
  assumes ok: "\<And>n m s. cand n = Some (m, s) \<Longrightarrow> P s"
      and tr: "\<And>a b c. P a \<Longrightarrow> P b \<Longrightarrow> P c \<Longrightarrow> better a b \<Longrightarrow> better b c \<Longrightarrow> better a c"
      and tr2: "\<And>a b c. P a \<Longrightarrow> P b \<Longrightarrow> P c \<Longrightarrow> better a b \<Longrightarrow> \<not> better c b
                  \<Longrightarrow> better a c"
  shows "first_best better cand ns (foldl (keep_first better cand) None ns)"
proof (induction ns rule: rev_induct)
  case Nil
  show ?case by (simp add: first_best_def)
next
  case (snoc x xs)
  let ?r = "foldl (keep_first better cand) None xs"
  have step: "foldl (keep_first better cand) None (xs @ [x]) = keep_first better cand ?r x"
    by simp
  show ?case
  proof (cases "cand x")
    case None
    have res: "keep_first better cand ?r x = ?r" using None by (rule keep_first_None)
    show ?thesis
    proof (cases ?r)
      case rn: None
      with snoc have "list_all (\<lambda>n. cand n = None) xs" by (simp add: first_best_NoneD)
      with None have "list_all (\<lambda>n. cand n = None) (xs @ [x])" by simp
      then have "first_best better cand (xs @ [x]) None" by (simp add: first_best_def)
      then show ?thesis unfolding step unfolding res unfolding rn .
    next
      case (Some ms)
      obtain m s where ms: "ms = (m, s)" by (cases ms)
      from snoc Some ms have "first_best better cand xs (Some (m, s))" by simp
      then obtain pre n post where
        h: "xs = pre @ n # post" "cand n = Some (m, s)"
           "list_all (\<lambda>k. case cand k of None \<Rightarrow> True | Some (m', t) \<Rightarrow> better s t) pre"
           "list_all (\<lambda>k. case cand k of None \<Rightarrow> True | Some (m', t) \<Rightarrow> \<not> better t s) post"
        by (rule first_best_SomeD)
      have a: "xs @ [x] = pre @ n # (post @ [x])" using h(1) by simp
      have b: "list_all (\<lambda>k. case cand k of None \<Rightarrow> True | Some (m', t) \<Rightarrow> \<not> better t s) (post @ [x])"
        using h(4) None by simp
      have "first_best better cand (xs @ [x]) (Some (m, s))"
        by (rule first_best_SomeI [OF a h(2) h(3) b])
      then show ?thesis unfolding step unfolding res unfolding Some ms .
    qed
  next
    case cx: (Some mt)
    obtain m' t where mt: "mt = (m', t)" by (cases mt)
    have cx': "cand x = Some (m', t)" using cx mt by simp
    have a0: "xs @ [x] = xs @ x # []" by simp
    have b0: "list_all (\<lambda>k. case cand k of None \<Rightarrow> True | Some (m', u) \<Rightarrow> \<not> better u t) []"
      by simp
    show ?thesis
    proof (cases ?r)
      case None
      have res: "keep_first better cand None x = Some (m', t)" using cx' by (rule keep_first_init)
      from snoc None have "list_all (\<lambda>n. cand n = None) xs" by (simp add: first_best_NoneD)
      then have c: "list_all (\<lambda>k. case cand k of None \<Rightarrow> True | Some (m', u) \<Rightarrow> better t u) xs"
        by (simp add: list_all_iff)
      have "first_best better cand (xs @ [x]) (Some (m', t))"
        by (rule first_best_SomeI [OF a0 cx' c b0])
      then show ?thesis unfolding step unfolding None unfolding res .
    next
      case (Some ms)
      obtain m s where ms: "ms = (m, s)" by (cases ms)
      from snoc Some ms have "first_best better cand xs (Some (m, s))" by simp
      then obtain pre n post where
        h: "xs = pre @ n # post" "cand n = Some (m, s)"
           "list_all (\<lambda>k. case cand k of None \<Rightarrow> True | Some (m', t) \<Rightarrow> better s t) pre"
           "list_all (\<lambda>k. case cand k of None \<Rightarrow> True | Some (m', t) \<Rightarrow> \<not> better t s) post"
        by (rule first_best_SomeD)
      have res: "keep_first better cand (Some (m, s)) x =
                   (if better t s then Some (m', t) else Some (m, s))"
        using cx' by (rule keep_first_Some)
      show ?thesis
      proof (cases "better t s")
        case True
        have c: "list_all (\<lambda>k. case cand k of None \<Rightarrow> True | Some (m', u) \<Rightarrow> better t u) xs"
          unfolding list_all_iff
        proof
          fix k assume k: "k \<in> set xs"
          show "case cand k of None \<Rightarrow> True | Some (m', u) \<Rightarrow> better t u"
          proof (cases "cand k")
            case None then show ?thesis by simp
          next
            case (Some mu)
            obtain m2 u where mu: "mu = (m2, u)" by (cases mu)
            have P: "P t" "P s" "P u"
              using ok [OF cx'] ok [OF h(2)] ok [of k m2 u] Some mu by simp_all
            from k h(1) consider "k \<in> set pre" | "k = n" | "k \<in> set post" by auto
            then have "better t u"
            proof cases
              case 1
              with h(3) Some mu have "better s u" by (auto simp: list_all_iff)
              with True show ?thesis using P tr by blast
            next
              case 2
              with h(2) Some mu have "u = s" by simp
              with True show ?thesis by simp
            next
              case 3
              with h(4) Some mu have "\<not> better u s" by (auto simp: list_all_iff)
              with True show ?thesis using P tr2 by blast
            qed
            then show ?thesis using Some mu by simp
          qed
        qed
        have "first_best better cand (xs @ [x]) (Some (m', t))"
          by (rule first_best_SomeI [OF a0 cx' c b0])
        then show ?thesis unfolding step unfolding Some ms unfolding res using True by simp
      next
        case False
        have a: "xs @ [x] = pre @ n # (post @ [x])" using h(1) by simp
        have b: "list_all (\<lambda>k. case cand k of None \<Rightarrow> True | Some (m', t) \<Rightarrow> \<not> better t s) (post @ [x])"
          using h(4) cx' False by simp
        have "first_best better cand (xs @ [x]) (Some (m, s))"
          by (rule first_best_SomeI [OF a h(2) h(3) b])
        then show ?thesis unfolding step unfolding Some ms unfolding res using False by simp
      qed
    qed
  qed
qed

lemma flt_trans: "flt a b \<Longrightarrow> flt b c \<Longrightarrow> flt a c"
  by (cases a; cases b; cases c) auto

lemma flt_below_trans: "flt c PosInf \<Longrightarrow> flt a b \<Longrightarrow> \<not> flt c b \<Longrightarrow> flt a c"
  by (cases a; cases b; cases c) auto

lemma flt_above_trans: "flt NegInf c \<Longrightarrow> flt b a \<Longrightarrow> \<not> flt b c \<Longrightarrow> flt c a"
  by (cases a; cases b; cases c) auto

lemma not_below_inf: "\<not> flt b PosInf \<Longrightarrow> \<not> flt b x"
  by (cases b; cases x) auto

lemma not_above_inf: "\<not> flt NegInf d \<Longrightarrow> \<not> flt x d"
  by (cases d; cases x) auto

lemma foldl_min_sim:
  assumes step: "\<And>st n. step st n =
             (case cand n of None \<Rightarrow> st
              | Some (m, s) \<Rightarrow> if flt s (snd st) then (m, s) else st)"
      and ok: "\<And>n m s. cand n = Some (m, s) \<Longrightarrow> flt s PosInf"
  shows "foldl step (m0, PosInf) ns
           = lift_best (m0, PosInf) (foldl (keep_first flt cand) None ns)"
proof (induction ns rule: rev_induct)
  case Nil
  show ?case by (simp add: lift_best_def)
next
  case (snoc x xs)
  have "step (lift_best (m0, PosInf) r) x = lift_best (m0, PosInf) (keep_first flt cand r x)"
    for r
    by (cases r; cases "cand x") (auto simp: step lift_best_def keep_first_def dest: ok)
  with snoc show ?case by simp
qed

lemma foldl_max_sim:
  assumes step: "\<And>st n. step st n =
             (case cand n of None \<Rightarrow> st
              | Some (m, s) \<Rightarrow> if fgt s (snd st) then (m, s) else st)"
      and ok: "\<And>n m s. cand n = Some (m, s) \<Longrightarrow> flt NegInf s"
  shows "foldl step (m0, NegInf) ns
           = lift_best (m0, NegInf) (foldl (keep_first fgt cand) None ns)"
proof (induction ns rule: rev_induct)
  case Nil
  show ?case by (simp add: lift_best_def)
next
  case (snoc x xs)
  have "step (lift_best (m0, NegInf) r) x = lift_best (m0, NegInf) (keep_first fgt cand r x)"
    for r
    by (cases r; cases "cand x") (auto simp: step lift_best_def keep_first_def fgt_def dest: ok)
  with snoc show ?case by simp
qed

lemma first_best_flt: "first_best flt cand ns (foldl (keep_first flt cand) None ns)"
  if "\<And>n m s. cand n = Some (m, s) \<Longrightarrow> flt s PosInf"
proof (rule keep_first_foldl [where P = "\<lambda>s. flt s PosInf"])
  show "\<And>n m s. cand n = Some (m, s) \<Longrightarrow> flt s PosInf" by (rule that)
  show "\<And>a b c. flt a b \<Longrightarrow> flt b c \<Longrightarrow> flt a c" by (rule flt_trans)
  show "\<And>a b c. flt c PosInf \<Longrightarrow> flt a b \<Longrightarrow> \<not> flt c b \<Longrightarrow> flt a c" by (rule flt_below_trans)
qed

lemma first_best_fgt: "first_best fgt cand ns (foldl (keep_first fgt cand) None ns)"
  if "\<And>n m s. cand n = Some (m, s) \<Longrightarrow> flt NegInf s"
proof (rule keep_first_foldl [where P = "\<lambda>s. flt NegInf s"])
  show "\<And>n m s. cand n = Some (m, s) \<Longrightarrow> flt NegInf s" by (rule that)
  show "\<And>a b c. fgt a b \<Longrightarrow> fgt b c \<Longrightarrow> fgt a c" unfolding fgt_def by (blast intro: flt_trans)
  show "\<And>a b c. flt NegInf c \<Longrightarrow> fgt a b \<Longrightarrow> \<not> fgt c b \<Longrightarrow> fgt a c"
    unfolding fgt_def by (rule flt_above_trans)
qed

lemma upto_split:
  assumes "[lo..hi] = pre @ n # post"
  shows "lo \<le> n \<and> n \<le> hi \<and> set pre = {lo..<n} \<and> set post = {n<..hi}"
proof -
  have s: "sorted (pre @ n # post)" and d: "distinct (pre @ n # post)"
    using assms [symmetric] by simp_all
  have u: "set pre \<union> {n} \<union> set post = {lo..hi}"
    using arg_cong [OF assms, of set] by auto
  from s have a: "\<forall>x\<in>set pre. x \<le> n" and b: "\<forall>y\<in>set post. n \<le> y"
    by (auto simp: sorted_append)
  from d have a': "n \<notin> set pre" and b': "n \<notin> set post" and c: "set pre \<inter> set post = {}"
    by auto
  from u have "n \<in> {lo..hi}" by blast
  then have 1: "lo \<le> n \<and> n \<le> hi" by simp
  have 2: "set pre = {lo..<n}"
  proof (rule set_eqI)
    fix x
    show "x \<in> set pre \<longleftrightarrow> x \<in> {lo..<n}"
    proof
      assume x: "x \<in> set pre"
      with u have "x \<in> {lo..hi}" by blast
      moreover from x a a' have "x \<le> n" "x \<noteq> n" by auto
      then have "x < n" by simp
      ultimately show "x \<in> {lo..<n}" by simp
    next
      assume "x \<in> {lo..<n}"
      with 1 have "x \<in> {lo..hi}" "x < n" by simp_all
      with u have "x \<in> set pre \<or> x = n \<or> x \<in> set post" by blast
      moreover have "x \<noteq> n" "x \<notin> set post" using \<open>x < n\<close> b by auto
      ultimately show "x \<in> set pre" by simp
    qed
  qed
  have 3: "set post = {n<..hi}"
  proof (rule set_eqI)
    fix x
    show "x \<in> set post \<longleftrightarrow> x \<in> {n<..hi}"
    proof
      assume x: "x \<in> set post"
      with u have "x \<in> {lo..hi}" by blast
      moreover from x b b' have "n \<le> x" "x \<noteq> n" by auto
      then have "n < x" by simp
      ultimately show "x \<in> {n<..hi}" by simp
    next
      assume "x \<in> {n<..hi}"
      with 1 have "x \<in> {lo..hi}" "n < x" by simp_all
      with u have "x \<in> set pre \<or> x = n \<or> x \<in> set post" by blast
      moreover have "x \<noteq> n" "x \<notin> set pre" using \<open>n < x\<close> a by auto
      ultimately show "x \<in> set post" by simp
    qed
  qed
  from 1 2 3 show ?thesis by simp
qed

lemma first_best_upto:
  assumes "first_best better cand [lo..hi] (Some (m, s))"
  shows "\<exists>n. lo \<le> n \<and> n \<le> hi \<and> cand n = Some (m, s) \<and>
           (\<forall>k m' t. lo \<le> k \<and> k \<le> hi \<and> cand k = Some (m', t)
              \<longrightarrow> (k < n \<longrightarrow> better s t) \<and> (n < k \<longrightarrow> \<not> better t s))"
proof -
  from assms obtain pre n post where
    h: "[lo..hi] = pre @ n # post" "cand n = Some (m, s)"
       "list_all (\<lambda>k. case cand k of None \<Rightarrow> True | Some (m', t) \<Rightarrow> better s t) pre"
       "list_all (\<lambda>k. case cand k of None \<Rightarrow> True | Some (m', t) \<Rightarrow> \<not> better t s) post"
    by (rule first_best_SomeD)
  from upto_split [OF h(1)] have
    r: "lo \<le> n" "n \<le> hi" "set pre = {lo..<n}" "set post = {n<..hi}" by simp_all
  have "(k < n \<longrightarrow> better s t) \<and> (n < k \<longrightarrow> \<not> better t s)"
    if k: "lo \<le> k \<and> k \<le> hi \<and> cand k = Some (m', t)" for k m' t
  proof (intro conjI impI)
    assume "k < n"
    with k r(3) have "k \<in> set pre" by simp
    with h(3) k show "better s t" by (auto simp: list_all_iff)
  next
    assume "n < k"
    with k r(4) have "k \<in> set post" by simp
    with h(4) k show "\<not> better t s" by (auto simp: list_all_iff)
  qed
  with r(1,2) h(2) show ?thesis by blast
qed

lemma first_best_None_upto:
  "first_best better cand [lo..hi] None \<Longrightarrow> lo \<le> n \<Longrightarrow> n \<le> hi \<Longrightarrow> cand n = None"
  by (auto dest!: first_best_NoneD simp: list_all_iff)

subsection \<open>The BIC selector\<close>

lemma bic_try_computed:
  "bic_try lib self n =
     (case BIC_computed lib self n of
        None \<Rightarrow> bic_try lib self n
      | Some b \<Rightarrow> Inr (base_model lib self n, b))"
  by (simp add: bic_try_def BIC_computed_def model_score_def Let_def
        split: option.splits sum.splits)

lemma bic_try_not_computed: "BIC_computed lib self n = None \<Longrightarrow> isl (bic_try lib self n)"
  by (simp add: bic_try_def BIC_computed_def model_score_def Let_def
        split: option.splits sum.splits)

lemma bic_step_cand:
  "bic_step lib self st n =
     (case bic_cand lib self n of
        None \<Rightarrow> st
      | Some (m, s) \<Rightarrow> if flt s (snd st) then (m, s) else st)"
proof (cases "BIC_computed lib self n")
  case None
  from bic_try_not_computed [OF this] obtain e where "bic_try lib self n = Inl e"
    by (auto simp: isl_def)
  with None show ?thesis by (simp add: bic_step_def bic_cand_def)
next
  case (Some b)
  with bic_try_computed [of lib self n]
  have t: "bic_try lib self n = Inr (base_model lib self n, b)" by simp
  show ?thesis
  proof (cases "flt b PosInf")
    case True
    with Some t show ?thesis by (simp add: bic_step_def bic_cand_def)
  next
    case False
    then have "\<not> flt b (snd st)" by (rule not_below_inf)
    with Some t False show ?thesis by (simp add: bic_step_def bic_cand_def)
  qed
qed

lemma bic_cand_below: "bic_cand lib self n = Some (m, s) \<Longrightarrow> flt s PosInf"
  by (auto simp: bic_cand_def split: option.splits if_splits)

text \<open>
  C2, as the code has it. The BIC is the value computed in double arithmetic, and a
  complexity takes part when its BIC is below plus infinity. When some complexity of the
  range takes part, the BIC selector returns the model fit for a complexity \<open>n\<close> of
  the range that takes part, whose BIC no other that takes part is below, and whose BIC
  is strictly below that of every such complexity before \<open>n\<close>: the first to attain
  the minimum. When no complexity of the range takes part, it returns absence.
\<close>

theorem SelectorBIC_first_minimum:
  "((\<exists>n b. min_n_components self \<le> n \<and> n \<le> max_n_components self \<and>
           BIC_computed lib self n = Some b \<and> flt b PosInf) \<longrightarrow>
      (\<exists>n b. min_n_components self \<le> n \<and> n \<le> max_n_components self \<and>
           BIC_computed lib self n = Some b \<and> flt b PosInf \<and>
           SelectorBIC_select lib self = base_model lib self n \<and>
           SelectorBIC_select lib self \<noteq> None \<and>
           (\<forall>k c. min_n_components self \<le> k \<and> k \<le> max_n_components self \<and>
                  BIC_computed lib self k = Some c \<and> flt c PosInf
                  \<longrightarrow> \<not> flt c b \<and> (k < n \<longrightarrow> flt b c)))) \<and>
   (\<not> (\<exists>n b. min_n_components self \<le> n \<and> n \<le> max_n_components self \<and>
           BIC_computed lib self n = Some b \<and> flt b PosInf) \<longrightarrow>
      SelectorBIC_select lib self = None)"
proof -
  let ?lo = "min_n_components self" and ?hi = "max_n_components self"
  let ?cand = "bic_cand lib self"
  let ?r = "foldl (keep_first flt ?cand) None [?lo..?hi]"
  have sim: "foldl (bic_step lib self) (None, PosInf) [?lo..?hi] = lift_best (None, PosInf) ?r"
    by (rule foldl_min_sim) (rule bic_step_cand, rule bic_cand_below)
  have fb: "first_best flt ?cand [?lo..?hi] ?r"
    by (rule first_best_flt) (rule bic_cand_below)
  have part: "?cand k = Some (base_model lib self k, c)"
    if "BIC_computed lib self k = Some c" "flt c PosInf" for k c
    using that by (simp add: bic_cand_def)
  have 1: "\<exists>n b. ?lo \<le> n \<and> n \<le> ?hi \<and>
           BIC_computed lib self n = Some b \<and> flt b PosInf \<and>
           SelectorBIC_select lib self = base_model lib self n \<and>
           SelectorBIC_select lib self \<noteq> None \<and>
           (\<forall>k c. ?lo \<le> k \<and> k \<le> ?hi \<and> BIC_computed lib self k = Some c \<and> flt c PosInf
                  \<longrightarrow> \<not> flt c b \<and> (k < n \<longrightarrow> flt b c))"
    if ex: "\<exists>n b. ?lo \<le> n \<and> n \<le> ?hi \<and> BIC_computed lib self n = Some b \<and> flt b PosInf"
  proof -
    from ex obtain n0 b0 where n0: "?lo \<le> n0" "n0 \<le> ?hi"
      "BIC_computed lib self n0 = Some b0" "flt b0 PosInf" by blast
    then have c0: "?cand n0 \<noteq> None" by (simp add: part)
    have "?r \<noteq> None"
    proof
      assume "?r = None"
      with fb have "first_best flt ?cand [?lo..?hi] None" by simp
      from first_best_None_upto [OF this n0(1,2)] c0 show False by simp
    qed
    then obtain m b where r: "?r = Some (m, b)" by (cases ?r) auto
    with fb have "first_best flt ?cand [?lo..?hi] (Some (m, b))" by simp
    from first_best_upto [OF this] obtain n where
      n: "?lo \<le> n" "n \<le> ?hi" "?cand n = Some (m, b)"
         "\<forall>k m' t. ?lo \<le> k \<and> k \<le> ?hi \<and> ?cand k = Some (m', t)
                \<longrightarrow> (k < n \<longrightarrow> flt b t) \<and> (n < k \<longrightarrow> \<not> flt t b)"
      by blast
    from n(3) have sp: "BIC_computed lib self n = Some b" and bl: "flt b PosInf"
      and m: "m = base_model lib self n"
      by (auto simp: bic_cand_def split: option.splits if_splits)
    from sp have fit: "base_model lib self n \<noteq> None"
      by (auto simp: BIC_computed_def split: option.splits)
    from sim r m have sel: "SelectorBIC_select lib self = base_model lib self n"
      by (simp add: SelectorBIC_select_def lift_best_def)
    have best: "\<not> flt c b \<and> (k < n \<longrightarrow> flt b c)"
      if k: "?lo \<le> k \<and> k \<le> ?hi \<and> BIC_computed lib self k = Some c \<and> flt c PosInf" for k c
    proof -
      from k have ck: "?cand k = Some (base_model lib self k, c)" by (simp add: part)
      with k n(4) have *: "(k < n \<longrightarrow> flt b c) \<and> (n < k \<longrightarrow> \<not> flt c b)" by blast
      consider "k < n" | "k = n" | "n < k" by linarith
      then show ?thesis
      proof cases
        case 1
        with * have "flt b c" by simp
        moreover from this have "\<not> flt c b" by (cases b; cases c) auto
        ultimately show ?thesis by simp
      next
        case 2
        with k sp have "c = b" by simp
        with 2 show ?thesis by (simp add: flt_irrefl)
      next
        case 3 with * show ?thesis by simp
      qed
    qed
    from n(1,2) sp bl sel fit best show ?thesis by (metis (no_types))
  qed
  have 2: "SelectorBIC_select lib self = None"
    if no: "\<not> (\<exists>n b. ?lo \<le> n \<and> n \<le> ?hi \<and> BIC_computed lib self n = Some b \<and> flt b PosInf)"
  proof -
    have "foldl (bic_step lib self) (None, PosInf) [?lo..?hi] = (None, PosInf)"
    proof (rule foldl_unchanged)
      fix n assume "n \<in> set [?lo..?hi]"
      then have "?lo \<le> n \<and> n \<le> ?hi" by simp
      with no have "?cand n = None" by (auto simp: bic_cand_def split: option.splits)
      then show "bic_step lib self (None, PosInf) n = (None, PosInf)" by (simp add: bic_step_cand)
    qed
    then show ?thesis by (simp add: SelectorBIC_select_def)
  qed
  from 1 2 show ?thesis by blast
qed

lemma fish_once_range: "[min_n_components fish_once .. max_n_components fish_once] = [2, 3, 4]"
  by (simp add: fish_once_fields upto_rec1)

lemma BIC_computed_demo:
  "BIC_computed demo_lib fish_once 2 = Some (Fin 12)"
  "BIC_computed demo_lib fish_once 3 = Some (Fin 18)"
  "BIC_computed demo_lib fish_once 4 = None"
  by (simp_all add: BIC_computed_def base_model_demo score_demo fish_once_fields np_log_demo_1
        float_of_int_demo demo_ops)

lemma steep_arith:
  "rnd steep_lib = clip_round" "np_log steep_lib = np_log demo_lib"
  "float_of_int steep_lib = float_of_int demo_lib"
  "GaussianHMM_score steep_lib m x l = Inr (Fin steep_loglik)"
  "base_model steep_lib s n = (if n = 4 then None else Some n)"
  by (simp_all add: steep_lib_def demo_lib_def base_model_def)

lemma steep_overflow: "fl_mul steep_lib (Fin (- 2)) (Fin steep_loglik) = PosInf"
  by (simp add: fl_mul_def fl_round_def steep_arith clip_round_def overflow_threshold_def
        steep_loglik_def)

lemma steep_ops:
  "\<bar>a * b\<bar> \<le> 1000 \<Longrightarrow> fl_mul steep_lib (Fin a) (Fin b) = Fin (a * b)"
  "fl_add steep_lib PosInf (Fin c) = PosInf"
  by (simp_all add: fl_mul_def fl_add_def fl_round_def steep_arith clip_round_small)

lemma BIC_computed_steep:
  "BIC_computed steep_lib fish_once 2 = Some PosInf"
  "BIC_computed steep_lib fish_once 3 = Some PosInf"
  "BIC_computed steep_lib fish_once 4 = None"
  by (simp_all add: BIC_computed_def steep_arith steep_overflow steep_ops fish_once_fields
        np_log_demo_1
        float_of_int_demo)

text \<open>
  A log-likelihood of \<open>- 2 ^ 1023\<close>, a finite double: the complexities 2 and 3 fit and
  score, \<open>-2 * L\<close> overflows to plus infinity, the BIC is plus infinity and not below
  the initial best score, and the selector returns absence.
\<close>

theorem SelectorBIC_overflow_counterexample:
  "base_model steep_lib fish_once 2 = Some 2 \<and>
   model_score steep_lib (Some 2) (X_mat fish_once) (lengths fish_once) = Inr (Fin (- (2 ^ 1023))) \<and>
   fl_mul steep_lib (Fin (- 2)) (Fin (- (2 ^ 1023))) = PosInf \<and>
   bic_try steep_lib fish_once 2 = Inr (Some 2, PosInf) \<and>
   bic_try steep_lib fish_once 3 = Inr (Some 3, PosInf) \<and>
   SelectorBIC_select steep_lib fish_once = None"
proof -
  have t: "bic_try steep_lib fish_once 2 = Inr (Some 2, PosInf)"
          "bic_try steep_lib fish_once 3 = Inr (Some 3, PosInf)"
          "bic_try steep_lib fish_once 4 = Inl AttributeError"
    using bic_try_computed [of steep_lib fish_once 2] bic_try_computed [of steep_lib fish_once 3]
    by (simp_all add: BIC_computed_steep steep_arith bic_try_unfit)
  then have "SelectorBIC_select steep_lib fish_once = None"
    by (simp add: SelectorBIC_select_def fish_once_range bic_step_def)
  with t steep_overflow show ?thesis by (simp add: steep_arith model_score_def steep_loglik_def)
qed

theorem SelectorBIC_first_minimum_witness:
  "BIC_computed demo_lib fish_once 2 = Some (Fin 12) \<and> flt (Fin 12) PosInf \<and>
   SelectorBIC_select demo_lib fish_once = Some 2 \<and>
   \<not> (\<exists>n b. min_n_components fish_once \<le> n \<and> n \<le> max_n_components fish_once \<and>
           BIC_computed steep_lib fish_once n = Some b \<and> flt b PosInf) \<and>
   SelectorBIC_select steep_lib fish_once = None"
proof -
  have e: "\<exists>n b. min_n_components fish_once \<le> n \<and> n \<le> max_n_components fish_once \<and>
             BIC_computed demo_lib fish_once n = Some b \<and> flt b PosInf"
    by (rule exI [of _ 2], rule exI [of _ "Fin 12"]) (simp add: BIC_computed_demo fish_once_fields)
  with SelectorBIC_first_minimum [of fish_once demo_lib] obtain n b where
    n: "min_n_components fish_once \<le> n" "n \<le> max_n_components fish_once"
       "BIC_computed demo_lib fish_once n = Some b"
       "SelectorBIC_select demo_lib fish_once = base_model demo_lib fish_once n"
       "\<forall>k c. min_n_components fish_once \<le> k \<and> k \<le> max_n_components fish_once \<and>
              BIC_computed demo_lib fish_once k = Some c \<and> flt c PosInf
              \<longrightarrow> \<not> flt c b \<and> (k < n \<longrightarrow> flt b c)"
    by blast
  from n(1,2) have "n = 2 \<or> n = 3 \<or> n = 4" by (simp add: fish_once_fields) arith
  moreover from n(3) have "n \<noteq> 4" by (auto simp: BIC_computed_demo)
  moreover have "n \<noteq> 3"
  proof
    assume n3: "n = 3"
    with n(3) have b: "b = Fin 18" by (simp add: BIC_computed_demo)
    have "min_n_components fish_once \<le> 2 \<and> 2 \<le> max_n_components fish_once \<and>
            BIC_computed demo_lib fish_once 2 = Some (Fin 12) \<and> flt (Fin 12) PosInf"
      by (simp add: fish_once_fields BIC_computed_demo)
    with n(5) have "\<not> flt (Fin 12) b" by blast
    with b show False by simp
  qed
  ultimately have "n = 2" by simp
  with n(4) have s: "SelectorBIC_select demo_lib fish_once = Some 2" by (simp add: base_model_demo)
  have no: "\<not> (\<exists>n b. min_n_components fish_once \<le> n \<and> n \<le> max_n_components fish_once \<and>
           BIC_computed steep_lib fish_once n = Some b \<and> flt b PosInf)"
  proof
    assume "\<exists>n b. min_n_components fish_once \<le> n \<and> n \<le> max_n_components fish_once \<and>
           BIC_computed steep_lib fish_once n = Some b \<and> flt b PosInf"
    then obtain k c where k: "2 \<le> k" "k \<le> 4" "BIC_computed steep_lib fish_once k = Some c"
      "flt c PosInf" by (auto simp: fish_once_fields)
    from k(1,2) have "k = 2 \<or> k = 3 \<or> k = 4" by arith
    with k(3,4) show False by (auto simp: BIC_computed_steep)
  qed
  with SelectorBIC_first_minimum [of fish_once steep_lib]
  have "SelectorBIC_select steep_lib fish_once = None" by blast
  with s no show ?thesis by (simp add: BIC_computed_demo)
qed

subsection \<open>The DIC selector\<close>

lemma dic_score_sum_ok:
  assumes "\<forall>w\<in>set ws. w \<noteq> this_word self \<longrightarrow> \<not> isl (word_loglik lib self h w)"
  shows "dic_score_sum lib self (Some h) ws acc
           = Inr (foldl (fl_add lib) acc
                    (map (\<lambda>w. projr (word_loglik lib self h w))
                       (filter (\<lambda>w. w \<noteq> this_word self) ws)))"
  using assms
proof (induction ws arbitrary: acc)
  case Nil
  then show ?case by simp
next
  case (Cons w ws)
  show ?case
  proof (cases "w = this_word self")
    case True
    with Cons show ?thesis by simp
  next
    case False
    with Cons.prems have ok: "\<not> isl (word_loglik lib self h w)" by simp
    then obtain v where v: "word_loglik lib self h w = Inr v" by (cases "word_loglik lib self h w") auto
    then obtain x l where g: "dict_get (hwords self) w = Inr (x, l)" "GaussianHMM_score lib h x l = Inr v"
      by (auto simp: word_loglik_def split: sum.splits)
    have "dic_score_sum lib self (Some h) (w # ws) acc
            = dic_score_sum lib self (Some h) ws (fl_add lib acc v)"
      using False g by (simp add: model_score_def)
    also have "\<dots> = Inr (foldl (fl_add lib) (fl_add lib acc v)
                           (map (\<lambda>w. projr (word_loglik lib self h w))
                              (filter (\<lambda>w. w \<noteq> this_word self) ws)))"
      using Cons.prems by (intro Cons.IH) simp
    finally show ?thesis using False v by simp
  qed
qed

lemma dic_score_sum_fail:
  assumes "\<exists>w\<in>set ws. w \<noteq> this_word self \<and> isl (word_loglik lib self h w)"
  shows "isl (dic_score_sum lib self (Some h) ws acc)"
  using assms
proof (induction ws arbitrary: acc)
  case Nil
  then show ?case by simp
next
  case (Cons w ws)
  show ?case
  proof (cases "w \<noteq> this_word self \<and> isl (word_loglik lib self h w)")
    case True
    then show ?thesis
      by (auto simp: word_loglik_def model_score_def isl_def split: sum.splits)
  next
    case False
    with Cons.prems have "\<exists>w\<in>set ws. w \<noteq> this_word self \<and> isl (word_loglik lib self h w)"
      by auto
    then have "\<And>acc. isl (dic_score_sum lib self (Some h) ws acc)" by (rule Cons.IH)
    then show ?thesis
      by (auto simp: model_score_def split: sum.splits prod.splits)
  qed
qed

lemma dic_try_computed:
  assumes dist: "distinct (map fst (hwords self))"
  shows "case DIC_computed lib self n of
           None \<Rightarrow> isl (dic_try lib self n)
         | Some d \<Rightarrow> dic_try lib self n = Inr (base_model lib self n, d)"
proof (cases "base_model lib self n")
  case None
  then show ?thesis by (simp add: dic_try_unfit DIC_computed_def)
next
  case (Some h)
  have card: "card (word_set self) = length (hwords self)"
    using distinct_card [OF dist] by (simp add: word_set_def)
  show ?thesis
  proof (cases "GaussianHMM_score lib h (X_mat self) (lengths self)")
    case (Inl e)
    with Some show ?thesis by (simp add: dic_try_def model_score_def DIC_computed_def)
  next
    case (Inr L)
    show ?thesis
    proof (cases "list_ex (\<lambda>w. isl (word_loglik lib self h w)) (other_words self)")
      case True
      then have "\<exists>w\<in>set (dict_keys (hwords self)). w \<noteq> this_word self \<and> isl (word_loglik lib self h w)"
        by (auto simp: other_words_def list_ex_iff)
      from dic_score_sum_fail [OF this, of "Fin 0"]
      obtain e where "dic_score_sum lib self (Some h) (dict_keys (hwords self)) (Fin 0) = Inl e"
        by (auto simp: isl_def)
      with Some Inr True show ?thesis
        by (simp add: dic_try_def model_score_def DIC_computed_def)
    next
      case False
      then have "\<forall>w\<in>set (dict_keys (hwords self)). w \<noteq> this_word self \<longrightarrow> \<not> isl (word_loglik lib self h w)"
        by (auto simp: other_words_def list_ex_iff)
      from dic_score_sum_ok [OF this, of "Fin 0"]
      have s: "dic_score_sum lib self (Some h) (dict_keys (hwords self)) (Fin 0)
                 = Inr (foldl (fl_add lib) (Fin 0)
                          (map (\<lambda>w. projr (word_loglik lib self h w)) (other_words self)))"
        by (simp add: other_words_def)
      from Some Inr False s card show ?thesis
        by (simp add: dic_try_def model_score_def DIC_computed_def Let_def split: sum.splits)
    qed
  qed
qed

lemma dic_step_cand:
  assumes dist: "distinct (map fst (hwords self))"
  shows "dic_step lib self st n =
     (case dic_cand lib self n of
        None \<Rightarrow> st
      | Some (m, s) \<Rightarrow> if fgt s (snd st) then (m, s) else st)"
proof (cases "DIC_computed lib self n")
  case None
  with dic_try_computed [OF dist, of lib n] obtain e where "dic_try lib self n = Inl e"
    by (auto simp: isl_def)
  with None show ?thesis by (simp add: dic_step_def dic_cand_def)
next
  case (Some d)
  with dic_try_computed [OF dist, of lib n]
  have t: "dic_try lib self n = Inr (base_model lib self n, d)" by simp
  show ?thesis
  proof (cases "flt NegInf d")
    case True
    with Some t show ?thesis by (simp add: dic_step_def dic_cand_def)
  next
    case False
    then have "\<not> flt (snd st) d" by (rule not_above_inf)
    with Some t False show ?thesis by (simp add: dic_step_def dic_cand_def fgt_def)
  qed
qed

lemma dic_cand_above: "dic_cand lib self n = Some (m, s) \<Longrightarrow> flt NegInf s"
  by (auto simp: dic_cand_def split: option.splits if_splits)

text \<open>
  C3, as the code has it, for a word map of distinct keys (a dict). The DIC is the value
  computed in double arithmetic, the other words' log-likelihoods added up in the order
  of the word map, and a complexity takes part when its DIC is above minus infinity.
  When some complexity of the range takes part, the DIC selector returns the model fit
  for a complexity \<open>n\<close> of the range that takes part, whose DIC no other that takes
  part is above, and whose DIC is strictly above that of every such complexity before
  \<open>n\<close>. When no complexity of the range takes part, it returns absence.
\<close>

theorem SelectorDIC_first_maximum:
  assumes "distinct (map fst (hwords self))"
  shows
  "((\<exists>n d. min_n_components self \<le> n \<and> n \<le> max_n_components self \<and>
           DIC_computed lib self n = Some d \<and> flt NegInf d) \<longrightarrow>
      (\<exists>n d. min_n_components self \<le> n \<and> n \<le> max_n_components self \<and>
           DIC_computed lib self n = Some d \<and> flt NegInf d \<and>
           SelectorDIC_select lib self = base_model lib self n \<and>
           SelectorDIC_select lib self \<noteq> None \<and>
           (\<forall>k c. min_n_components self \<le> k \<and> k \<le> max_n_components self \<and>
                  DIC_computed lib self k = Some c \<and> flt NegInf c
                  \<longrightarrow> \<not> flt d c \<and> (k < n \<longrightarrow> flt c d)))) \<and>
   (\<not> (\<exists>n d. min_n_components self \<le> n \<and> n \<le> max_n_components self \<and>
           DIC_computed lib self n = Some d \<and> flt NegInf d) \<longrightarrow>
      SelectorDIC_select lib self = None)"
proof -
  let ?lo = "min_n_components self" and ?hi = "max_n_components self"
  let ?cand = "dic_cand lib self"
  let ?r = "foldl (keep_first fgt ?cand) None [?lo..?hi]"
  have sim: "foldl (dic_step lib self) (None, NegInf) [?lo..?hi] = lift_best (None, NegInf) ?r"
    by (rule foldl_max_sim) (rule dic_step_cand [OF assms], rule dic_cand_above)
  have fb: "first_best fgt ?cand [?lo..?hi] ?r"
    by (rule first_best_fgt) (rule dic_cand_above)
  have part: "?cand k = Some (base_model lib self k, c)"
    if "DIC_computed lib self k = Some c" "flt NegInf c" for k c
    using that by (simp add: dic_cand_def)
  have 1: "\<exists>n d. ?lo \<le> n \<and> n \<le> ?hi \<and>
           DIC_computed lib self n = Some d \<and> flt NegInf d \<and>
           SelectorDIC_select lib self = base_model lib self n \<and>
           SelectorDIC_select lib self \<noteq> None \<and>
           (\<forall>k c. ?lo \<le> k \<and> k \<le> ?hi \<and> DIC_computed lib self k = Some c \<and> flt NegInf c
                  \<longrightarrow> \<not> flt d c \<and> (k < n \<longrightarrow> flt c d))"
    if ex: "\<exists>n d. ?lo \<le> n \<and> n \<le> ?hi \<and> DIC_computed lib self n = Some d \<and> flt NegInf d"
  proof -
    from ex obtain n0 d0 where n0: "?lo \<le> n0" "n0 \<le> ?hi"
      "DIC_computed lib self n0 = Some d0" "flt NegInf d0" by blast
    then have c0: "?cand n0 \<noteq> None" by (simp add: part)
    have "?r \<noteq> None"
    proof
      assume "?r = None"
      with fb have "first_best fgt ?cand [?lo..?hi] None" by simp
      from first_best_None_upto [OF this n0(1,2)] c0 show False by simp
    qed
    then obtain m d where r: "?r = Some (m, d)" by (cases ?r) auto
    with fb have "first_best fgt ?cand [?lo..?hi] (Some (m, d))" by simp
    from first_best_upto [OF this] obtain n where
      n: "?lo \<le> n" "n \<le> ?hi" "?cand n = Some (m, d)"
         "\<forall>k m' t. ?lo \<le> k \<and> k \<le> ?hi \<and> ?cand k = Some (m', t)
                \<longrightarrow> (k < n \<longrightarrow> fgt d t) \<and> (n < k \<longrightarrow> \<not> fgt t d)"
      by blast
    from n(3) have sp: "DIC_computed lib self n = Some d" and ab: "flt NegInf d"
      and m: "m = base_model lib self n"
      by (auto simp: dic_cand_def split: option.splits if_splits)
    from sp have fit: "base_model lib self n \<noteq> None"
      by (auto simp: DIC_computed_def split: option.splits)
    from sim r m have sel: "SelectorDIC_select lib self = base_model lib self n"
      by (simp add: SelectorDIC_select_def lift_best_def)
    have best: "\<not> flt d c \<and> (k < n \<longrightarrow> flt c d)"
      if k: "?lo \<le> k \<and> k \<le> ?hi \<and> DIC_computed lib self k = Some c \<and> flt NegInf c" for k c
    proof -
      from k have ck: "?cand k = Some (base_model lib self k, c)" by (simp add: part)
      with k n(4) have *: "(k < n \<longrightarrow> flt c d) \<and> (n < k \<longrightarrow> \<not> flt d c)"
        unfolding fgt_def by blast
      consider "k < n" | "k = n" | "n < k" by linarith
      then show ?thesis
      proof cases
        case 1
        with * have "flt c d" by simp
        moreover from this have "\<not> flt d c" by (cases c; cases d) auto
        ultimately show ?thesis by simp
      next
        case 2
        with k sp have "c = d" by simp
        with 2 show ?thesis by (simp add: flt_irrefl)
      next
        case 3 with * show ?thesis by simp
      qed
    qed
    from n(1,2) sp ab sel fit best show ?thesis by (metis (no_types))
  qed
  have 2: "SelectorDIC_select lib self = None"
    if no: "\<not> (\<exists>n d. ?lo \<le> n \<and> n \<le> ?hi \<and> DIC_computed lib self n = Some d \<and> flt NegInf d)"
  proof -
    have "foldl (dic_step lib self) (None, NegInf) [?lo..?hi] = (None, NegInf)"
    proof (rule foldl_unchanged)
      fix n assume "n \<in> set [?lo..?hi]"
      then have "?lo \<le> n \<and> n \<le> ?hi" by simp
      with no have "?cand n = None" by (auto simp: dic_cand_def split: option.splits)
      then show "dic_step lib self (None, NegInf) n = (None, NegInf)"
        by (simp add: dic_step_cand [OF assms])
    qed
    then show ?thesis by (simp add: SelectorDIC_select_def)
  qed
  from 1 2 show ?thesis by blast
qed

lemma fish_words: "card (word_set fish) = 2" "other_words fish = [''BOOK'']"
  by (simp_all add: word_set_def other_words_def dict_keys_def fish_fields)

lemma word_loglik_demo:
  "word_loglik demo_lib fish h ''BOOK'' = Inr (Fin (- (real_of_int h * 2)))"
  by (simp add: word_loglik_def dict_get_def fish_fields score_demo)

lemma DIC_computed_demo:
  "DIC_computed demo_lib fish 2 = Some (Fin (- 2))"
  "DIC_computed demo_lib fish 3 = Some (Fin (- 3))"
  "DIC_computed demo_lib fish 4 = None"
  by (simp_all add: DIC_computed_def base_model_demo score_demo fish_fields fish_words
        word_loglik_demo py_truediv_demo_1 demo_ops)

lemma zero_likelihood_arith:
  "rnd zero_likelihood_lib = clip_round"
  "GaussianHMM_score zero_likelihood_lib m x l =
     (if length x = 3 then Inr NegInf else Inr (Fin (- (real_of_int m * real (length x)))))"
  "base_model zero_likelihood_lib s n = (if n = 4 then None else Some n)"
  by (simp_all add: zero_likelihood_lib_def demo_lib_def base_model_def)

lemma zero_likelihood_ops:
  "\<bar>a + b\<bar> \<le> 1000 \<Longrightarrow> fl_add zero_likelihood_lib (Fin a) (Fin b) = Fin (a + b)"
  "\<bar>a * b\<bar> \<le> 1000 \<Longrightarrow> fl_mul zero_likelihood_lib (Fin a) (Fin b) = Fin (a * b)"
  "fl_sub zero_likelihood_lib NegInf (Fin c) = NegInf"
  "py_truediv zero_likelihood_lib 1 1 = Inr (Fin 1)"
  by (simp_all add: fl_add_def fl_mul_def fl_sub_def fl_round_def py_truediv_def
        zero_likelihood_arith clip_round_small)

lemma word_loglik_zero_likelihood:
  "word_loglik zero_likelihood_lib fish h ''BOOK'' = Inr (Fin (- (real_of_int h * 2)))"
  by (simp add: word_loglik_def dict_get_def fish_fields zero_likelihood_arith)

lemma DIC_computed_zero_likelihood:
  "DIC_computed zero_likelihood_lib fish 2 = Some NegInf"
  "DIC_computed zero_likelihood_lib fish 3 = Some NegInf"
  "DIC_computed zero_likelihood_lib fish 4 = None"
  by (simp_all add: DIC_computed_def zero_likelihood_arith fish_fields fish_words
        word_loglik_zero_likelihood zero_likelihood_ops)

text \<open>
  The target word's data has the log-likelihood minus infinity under every model: the
  complexities 2 and 3 fit and score on every word, their DIC is minus infinity, the
  maximum, and not above the initial best score, and the selector returns absence.
\<close>

theorem SelectorDIC_minus_infinity_counterexample:
  "distinct (map fst (hwords fish)) \<and> length (hwords fish) = 2 \<and>
   base_model zero_likelihood_lib fish 2 = Some 2 \<and>
   model_score zero_likelihood_lib (Some 2) (X_mat fish) (lengths fish) = Inr NegInf \<and>
   dic_try zero_likelihood_lib fish 2 = Inr (Some 2, NegInf) \<and>
   dic_try zero_likelihood_lib fish 3 = Inr (Some 3, NegInf) \<and>
   SelectorDIC_select zero_likelihood_lib fish = None"
proof -
  have d: "distinct (map fst (hwords fish))" by (simp add: fish_fields)
  have t: "dic_try zero_likelihood_lib fish 2 = Inr (Some 2, NegInf)"
          "dic_try zero_likelihood_lib fish 3 = Inr (Some 3, NegInf)"
          "dic_try zero_likelihood_lib fish 4 = Inl AttributeError"
    using dic_try_computed [OF d, of zero_likelihood_lib 2]
      dic_try_computed [OF d, of zero_likelihood_lib 3]
    by (simp_all add: DIC_computed_zero_likelihood zero_likelihood_arith dic_try_unfit)
  then have "SelectorDIC_select zero_likelihood_lib fish = None"
    by (simp add: SelectorDIC_select_def fish_range dic_step_def fgt_def)
  with d t show ?thesis by (simp add: zero_likelihood_arith model_score_def fish_fields)
qed

theorem SelectorDIC_first_maximum_witness:
  "distinct (map fst (hwords fish)) \<and>
   DIC_computed demo_lib fish 2 = Some (Fin (- 2)) \<and> flt NegInf (Fin (- 2)) \<and>
   SelectorDIC_select demo_lib fish = Some 2 \<and>
   \<not> (\<exists>n d. min_n_components fish \<le> n \<and> n \<le> max_n_components fish \<and>
           DIC_computed zero_likelihood_lib fish n = Some d \<and> flt NegInf d) \<and>
   SelectorDIC_select zero_likelihood_lib fish = None"
proof -
  have dst: "distinct (map fst (hwords fish))" by (simp add: fish_fields)
  have e: "\<exists>n d. min_n_components fish \<le> n \<and> n \<le> max_n_components fish \<and>
             DIC_computed demo_lib fish n = Some d \<and> flt NegInf d"
    by (rule exI [of _ 2], rule exI [of _ "Fin (- 2)"]) (simp add: DIC_computed_demo fish_fields)
  with SelectorDIC_first_maximum [OF dst, of demo_lib] obtain n d where
    n: "min_n_components fish \<le> n" "n \<le> max_n_components fish"
       "DIC_computed demo_lib fish n = Some d"
       "SelectorDIC_select demo_lib fish = base_model demo_lib fish n"
       "\<forall>k c. min_n_components fish \<le> k \<and> k \<le> max_n_components fish \<and>
              DIC_computed demo_lib fish k = Some c \<and> flt NegInf c
              \<longrightarrow> \<not> flt d c \<and> (k < n \<longrightarrow> flt c d)"
    by blast
  from n(1,2) have "n = 2 \<or> n = 3 \<or> n = 4" by (simp add: fish_fields) arith
  moreover from n(3) have "n \<noteq> 4" by (auto simp: DIC_computed_demo)
  moreover have "n \<noteq> 3"
  proof
    assume n3: "n = 3"
    with n(3) have d: "d = Fin (- 3)" by (simp add: DIC_computed_demo)
    have "min_n_components fish \<le> 2 \<and> 2 \<le> max_n_components fish \<and>
            DIC_computed demo_lib fish 2 = Some (Fin (- 2)) \<and> flt NegInf (Fin (- 2))"
      by (simp add: fish_fields DIC_computed_demo)
    with n(5) have "\<not> flt d (Fin (- 2))" by blast
    with d show False by simp
  qed
  ultimately have "n = 2" by simp
  with n(4) have s: "SelectorDIC_select demo_lib fish = Some 2" by (simp add: base_model_demo)
  have no: "\<not> (\<exists>n d. min_n_components fish \<le> n \<and> n \<le> max_n_components fish \<and>
           DIC_computed zero_likelihood_lib fish n = Some d \<and> flt NegInf d)"
  proof
    assume "\<exists>n d. min_n_components fish \<le> n \<and> n \<le> max_n_components fish \<and>
           DIC_computed zero_likelihood_lib fish n = Some d \<and> flt NegInf d"
    then obtain k c where k: "2 \<le> k" "k \<le> 4" "DIC_computed zero_likelihood_lib fish k = Some c"
      "flt NegInf c" by (auto simp: fish_fields)
    from k(1,2) have "k = 2 \<or> k = 3 \<or> k = 4" by arith
    with k(3,4) show False by (auto simp: DIC_computed_zero_likelihood)
  qed
  with SelectorDIC_first_maximum [OF dst, of zero_likelihood_lib]
  have "SelectorDIC_select zero_likelihood_lib fish = None" by blast
  with dst s no show ?thesis by (simp add: DIC_computed_demo)
qed

subsection \<open>The folds of the cross-validation selector\<close>

lemma sum_fold_sizes_aux:
  "sum_list (map (\<lambda>i. c + (if i < r then 1 else 0)) [0..<k]) = c * k + min r k"
  by (induction k) auto

lemma sum_fold_sizes: "0 < k \<Longrightarrow> sum_list (fold_sizes k n) = n"
proof -
  assume k: "0 < k"
  then have "n mod k < k" by simp
  then have "min (n mod k) k = n mod k" by simp
  then have "sum_list (fold_sizes k n) = n div k * k + n mod k"
    by (simp add: fold_sizes_def sum_fold_sizes_aux)
  then show ?thesis by simp
qed

lemma fold_sizes_pos: "0 < k \<Longrightarrow> k \<le> n \<Longrightarrow> list_all (\<lambda>s. 0 < s) (fold_sizes k n)"
proof -
  assume "0 < k" "k \<le> n"
  then have "0 < n div k" by (simp add: div_greater_zero_iff)
  then show ?thesis by (simp add: fold_sizes_def list_all_iff)
qed

lemma length_kfold_folds: "length (kfold_folds n sizes cur) = length sizes"
  by (induction sizes arbitrary: cur) simp_all

lemma concat_kfold_folds:
  "concat (map snd (kfold_folds n sizes cur)) = [cur..<cur + sum_list sizes]"
proof (induction sizes arbitrary: cur)
  case Nil
  show ?case by simp
next
  case (Cons s sizes)
  have "[cur..<cur + s + sum_list sizes] = [cur..<cur + s] @ [cur + s..<cur + s + sum_list sizes]"
    by (rule upt_add_eq_append) simp
  with Cons show ?case by (simp add: add.assoc)
qed

lemma valid_kfold_folds:
  "list_all (\<lambda>s. 0 < s) sizes \<Longrightarrow> cur + sum_list sizes \<le> n
     \<Longrightarrow> list_all (valid_fold n) (kfold_folds n sizes cur)"
proof (induction sizes arbitrary: cur)
  case Nil
  show ?case by simp
next
  case (Cons s sizes)
  from Cons.prems have s: "0 < s" "cur + s \<le> n" by simp_all
  then have "valid_fold n ([0..<cur] @ [cur + s..<n], [cur..<cur + s])"
    by (auto simp: valid_fold_def)
  moreover from Cons.prems have "list_all (valid_fold n) (kfold_folds n sizes (cur + s))"
    by (intro Cons.IH) (simp_all add: add.assoc)
  ultimately show ?case by simp
qed

text \<open>
  C5, as the code has it, for the splitter of scikit-learn with \<open>k\<close> splits, the
  default of the release, at least 2. When the word has at least \<open>k\<close> instances,
  its indices \<open>0..n-1\<close> are partitioned into \<open>k\<close> folds. When the word has fewer
  instances than \<open>k\<close>, the splitter raises ValueError, which the \<open>try\<close> absorbs:
  no fold is produced and none is scored.
\<close>

theorem cv_folds_of_KFold:
  assumes "KFold_split lib = sklearn_KFold_split k" and "2 \<le> k"
  shows "(k \<le> length (sequences self) \<longrightarrow>
           (\<exists>folds. KFold_split lib (sequences self) = Inr folds \<and> length folds = k \<and>
              concat (map snd folds) = [0..<length (sequences self)] \<and>
              list_all (valid_fold (length (sequences self))) folds)) \<and>
         (length (sequences self) < k \<longrightarrow>
            KFold_split lib (sequences self) = Inl ValueError \<and>
            cv_try lib self n = (Some ValueError, base_model lib self n, PyZero, 0) \<and>
            cv_count lib self n = 0)"
proof (intro conjI impI)
  let ?n = "length (sequences self)"
  let ?folds = "kfold_folds ?n (fold_sizes k ?n) 0"
  from assms(2) have k0: "0 < k" and k2: "\<not> k < 2" by simp_all
  assume kn: "k \<le> ?n"
  with k2 have sp: "KFold_split lib (sequences self) = Inr ?folds"
    by (simp add: assms(1) sklearn_KFold_split_def)
  have len: "length ?folds = k" by (simp add: length_kfold_folds fold_sizes_def)
  have cc: "concat (map snd ?folds) = [0..<?n]"
    by (simp add: concat_kfold_folds sum_fold_sizes [OF k0])
  have va: "list_all (valid_fold ?n) ?folds"
    by (rule valid_kfold_folds) (simp_all add: fold_sizes_pos [OF k0 kn] sum_fold_sizes [OF k0])
  from sp len cc va
  show "\<exists>folds. KFold_split lib (sequences self) = Inr folds \<and> length folds = k \<and>
              concat (map snd folds) = [0..<length (sequences self)] \<and>
              list_all (valid_fold (length (sequences self))) folds"
    by blast
next
  assume a: "length (sequences self) < k"
  then show sp: "KFold_split lib (sequences self) = Inl ValueError"
    by (simp add: assms(1) sklearn_KFold_split_def)
  then show t: "cv_try lib self n = (Some ValueError, base_model lib self n, PyZero, 0)"
    by (simp add: cv_try_def)
  then show "cv_count lib self n = 0" by (simp add: cv_count_def)
qed

text \<open>
  With two instances and three splits, and likewise with five, no fold is produced and
  none is scored: the selector does not fall back to a smaller number of folds.
\<close>

theorem cv_fewer_instances_than_folds_counterexample:
  "length (sequences fish_pair) = 2 \<and>
   KFold_split demo_lib (sequences fish_pair) = Inl ValueError \<and>
   base_model demo_lib fish_pair 2 = Some 2 \<and>
   cv_try demo_lib fish_pair 2 = (Some ValueError, Some 2, PyZero, 0) \<and>
   \<not> (\<exists>folds. KFold_split demo_lib (sequences fish_pair) = Inr folds \<and>
                0 < cv_count demo_lib fish_pair 2) \<and>
   KFold_split demo5_lib (sequences fish_pair) = Inl ValueError \<and>
   cv_try demo5_lib fish_pair 2 = (Some ValueError, Some 2, PyZero, 0)"
proof -
  have s: "sequences fish_pair = [[[0]], [[1]]]" by (simp add: fish_pair_def)
  have k: "KFold_split demo_lib (sequences fish_pair) = Inl ValueError"
    by (simp add: s demo_arith sklearn_KFold_split_def)
  have k5: "KFold_split demo5_lib (sequences fish_pair) = Inl ValueError"
    by (simp add: s demo5_lib_def sklearn_KFold_split_def)
  have b: "base_model demo_lib fish_pair 2 = Some 2" by (simp add: base_model_demo)
  have b5: "base_model demo5_lib fish_pair 2 = Some 2"
    by (simp add: base_model_def demo5_lib_def demo_lib_def)
  have t: "cv_try demo_lib fish_pair 2 = (Some ValueError, Some 2, PyZero, 0)"
    using k b by (simp add: cv_try_def)
  have t5: "cv_try demo5_lib fish_pair 2 = (Some ValueError, Some 2, PyZero, 0)"
    using k5 b5 by (simp add: cv_try_def)
  from s k b t k5 t5 show ?thesis by (simp add: cv_count_def)
qed

theorem cv_folds_of_KFold_witness:
  "KFold_split demo_lib = sklearn_KFold_split 3 \<and> (2::nat) \<le> 3 \<and>
   length (sequences fish) = 3 \<and>
   (\<exists>folds. KFold_split demo_lib (sequences fish) = Inr folds \<and> length folds = 3 \<and>
      concat (map snd folds) = [0..<3] \<and> list_all (valid_fold 3) folds) \<and>
   KFold_split demo_lib (sequences fish) = Inr [([1, 2], [0]), ([0, 2], [1]), ([0, 1], [2])] \<and>
   length (sequences fish_pair) = 2 \<and>
   cv_try demo_lib fish_pair 2 = (Some ValueError, Some 2, PyZero, 0) \<and>
   cv_count demo_lib fish_pair 2 = 0"
proof -
  have K: "KFold_split demo_lib = sklearn_KFold_split 3" by (simp add: demo_arith)
  have k2: "(2::nat) \<le> 3" by simp
  have s: "length (sequences fish) = 3" by (simp add: fish_fields)
  have s2: "length (sequences fish_pair) = 2" by (simp add: fish_pair_def)
  have sp: "KFold_split demo_lib (sequences fish) = Inr [([1, 2], [0]), ([0, 2], [1]), ([0, 1], [2])]"
    by (simp add: K fish_fields folds3)
  from cv_folds_of_KFold [OF K k2, of fish] s
  have 1: "\<exists>folds. KFold_split demo_lib (sequences fish) = Inr folds \<and> length folds = 3 \<and>
      concat (map snd folds) = [0..<3] \<and> list_all (valid_fold 3) folds"
    by simp
  from cv_folds_of_KFold [OF K k2, of fish_pair 2] s2
  have 2: "cv_try demo_lib fish_pair 2 = (Some ValueError, Some 2, PyZero, 0)"
    and 3: "cv_count demo_lib fish_pair 2 = 0"
    by (simp_all add: base_model_demo)
  from K k2 s 1 sp s2 2 3 show ?thesis by (intro conjI)
qed

end
